theory Spec2Isabelle
  imports Main "HOL-Library.AList"
begin

section \<open>Characters, strings and errors\<close>

text \<open>
  A Python \<open>str\<close> is a sequence of Unicode code points, and the program works on it one
  character at a time. A character is modelled by its code point, so that the
  empty-string marker \<open>EPS = "\<epsilon>"\<close> (U+03B5) is one character, as it is in Python.
  \<open>ord c\<close> is the code point of an ASCII character.
\<close>

type_synonym pychar = nat
type_synonym pystr = "pychar list"

abbreviation ord :: "char \<Rightarrow> pychar" where
  "ord \<equiv> of_char"

definition EPS :: pychar where
  "EPS = 949"

text \<open>
  The exceptions the program raises: \<open>ValueError("Simbolo no soportado: ...")\<close>,
  \<open>ValueError("Parentesis desbalanceados")\<close> (with or without \<open>al final\<close>),
  \<open>RuntimeError("ER invalida (stack final != 1).")\<close>, and the \<open>IndexError\<close> of
  \<open>list.pop()\<close> on an empty list.
\<close>

datatype error =
    UnsupportedSymbol pychar
  | UnbalancedParentheses
  | InvalidConstruction
  | IndexError

section \<open>Tokenisation and parsing\<close>

text \<open>
  \<open>str.isspace\<close> on one character: the code points that CPython classifies as
  whitespace.
\<close>

definition isspace :: "pychar \<Rightarrow> bool" where
  "isspace ch \<longleftrightarrow>
     (9 \<le> ch \<and> ch \<le> 13) \<or> (28 \<le> ch \<and> ch \<le> 32) \<or> ch = 133 \<or> ch = 160 \<or> ch = 5760 \<or>
     (8192 \<le> ch \<and> ch \<le> 8202) \<or> ch = 8232 \<or> ch = 8233 \<or> ch = 8239 \<or> ch = 8287 \<or>
     ch = 12288"

definition remove_spaces :: "pystr \<Rightarrow> pystr" where
  "remove_spaces s = filter (\<lambda>ch. \<not> isspace ch) s"

definition is_symbol :: "pychar \<Rightarrow> bool" where
  "is_symbol ch \<longleftrightarrow>
     ch \<notin> {ord CHR ''|'', ord CHR ''*'', ord CHR ''+'', ord CHR ''?'', ord CHR ''('',
            ord CHR '')'', ord CHR ''.''}"

text \<open>
  \<open>add_concat\<close>: the \<open>for i, ch in enumerate(exp)\<close> loop, with the index \<open>i\<close> and the
  result list \<open>res\<close> as arguments. Inside the loop \<open>i < len(exp)\<close>, so \<open>len(exp) - 1\<close>
  is not negative and \<open>exp[i + 1]\<close> is read only when \<open>i + 1 < len(exp)\<close>.
\<close>

function add_concat_loop :: "pystr \<Rightarrow> nat \<Rightarrow> pystr \<Rightarrow> pystr" where
  "add_concat_loop exp i res =
     (if i < length exp then
        (let ch = exp ! i;
             res1 = res @ [ch]
         in if i = length exp - 1 then add_concat_loop exp (i + 1) res1
            else
              (let a = ch;
                   b = exp ! (i + 1)
               in if (is_symbol a \<or> a \<in> {ord CHR '')'', ord CHR ''*'', ord CHR ''+'', ord CHR ''?''})
                     \<and> (is_symbol b \<or> b \<in> {ord CHR ''('', EPS})
                  then add_concat_loop exp (i + 1) (res1 @ [ord CHR ''.''])
                  else add_concat_loop exp (i + 1) res1))
      else res)"
  by pat_completeness auto
termination
  by (relation "measure (\<lambda>(exp, i, res). length exp - i)") auto

declare add_concat_loop.simps [simp del]

definition add_concat :: "pystr \<Rightarrow> pystr" where
  "add_concat exp = add_concat_loop exp 0 []"

definition PRECEDENCE :: "pychar \<rightharpoonup> nat" where
  "PRECEDENCE =
     map_of [(ord CHR ''|'', 1), (ord CHR ''.'', 2), (ord CHR ''*'', 3), (ord CHR ''+'', 3),
             (ord CHR ''?'', 3)]"

definition RIGHT_ASSOC :: "pychar set" where
  "RIGHT_ASSOC = {ord CHR ''*'', ord CHR ''+'', ord CHR ''?''}"

text \<open>
  The operator stack of \<open>to_postfix\<close> is a list whose head is the top of the stack
  (\<open>stack[-1]\<close>); \<open>out\<close> keeps Python's order.

  \<open>close_paren_loop\<close> is the loop run on \<open>)\<close>:
  \<open>while stack and stack[-1] != "(": out.append(stack.pop())\<close>.
\<close>

fun close_paren_loop :: "pystr \<Rightarrow> pystr \<Rightarrow> pystr \<times> pystr" where
  "close_paren_loop out [] = (out, [])"
| "close_paren_loop out (tp # stack) =
     (if tp \<noteq> ord CHR ''('' then close_paren_loop (out @ [tp]) stack
      else (out, tp # stack))"

text \<open>
  \<open>operator_loop\<close> is the loop run on an operator \<open>ch\<close> of \<open>PRECEDENCE\<close>, before
  \<open>ch\<close> is pushed; \<open>tp\<close> is the source's \<open>top\<close>. \<open>PRECEDENCE[ch]\<close> is read only
  here, where \<open>ch\<close> is a key, and \<open>PRECEDENCE[top]\<close> only behind the test
  \<open>top in PRECEDENCE\<close>.
\<close>

fun operator_loop :: "pychar \<Rightarrow> pystr \<Rightarrow> pystr \<Rightarrow> pystr \<times> pystr" where
  "operator_loop ch out [] = (out, [])"
| "operator_loop ch out (tp # stack) =
     (if tp \<noteq> ord CHR ''('' then
        (if (case PRECEDENCE tp of
               None \<Rightarrow> False
             | Some ptop \<Rightarrow>
                 (case PRECEDENCE ch of
                    None \<Rightarrow> False
                  | Some pch \<Rightarrow> ptop > pch \<or> (ptop = pch \<and> ch \<notin> RIGHT_ASSOC)))
         then operator_loop ch (out @ [tp]) stack
         else (out, tp # stack))
      else (out, tp # stack))"

text \<open>One iteration of the main \<open>while i < len(regex)\<close> loop, on the character \<open>ch\<close>.\<close>

definition to_postfix_step :: "pychar \<Rightarrow> pystr \<times> pystr \<Rightarrow> error + pystr \<times> pystr" where
  "to_postfix_step ch st =
     (case st of (out, stack) \<Rightarrow>
        if ch = EPS then Inr (out @ [EPS], stack)
        else if is_symbol ch then Inr (out @ [ch], stack)
        else if ch = ord CHR ''('' then Inr (out, ch # stack)
        else if ch = ord CHR '')'' then
          (case close_paren_loop out stack of
             (out1, []) \<Rightarrow> Inl UnbalancedParentheses
           | (out1, tp # stack1) \<Rightarrow> Inr (out1, stack1))
        else if PRECEDENCE ch \<noteq> None then
          (case operator_loop ch out stack of
             (out1, stack1) \<Rightarrow> Inr (out1, ch # stack1))
        else Inl (UnsupportedSymbol ch))"

fun to_postfix_loop :: "pystr \<Rightarrow> pystr \<times> pystr \<Rightarrow> error + pystr \<times> pystr" where
  "to_postfix_loop [] st = Inr st"
| "to_postfix_loop (ch # rest) st =
     (case to_postfix_step ch st of
        Inl e \<Rightarrow> Inl e
      | Inr st1 \<Rightarrow> to_postfix_loop rest st1)"

text \<open>The final loop \<open>while stack: op = stack.pop(); ...\<close>.\<close>

fun drain_loop :: "pystr \<Rightarrow> pystr \<Rightarrow> error + pystr" where
  "drain_loop out [] = Inr out"
| "drain_loop out (op # stack) =
     (if op \<in> {ord CHR ''('', ord CHR '')''} then Inl UnbalancedParentheses
      else drain_loop (out @ [op]) stack)"

definition to_postfix :: "pystr \<Rightarrow> error + pystr" where
  "to_postfix regex =
     (case to_postfix_loop regex ([], []) of
        Inl e \<Rightarrow> Inl e
      | Inr (out, stack) \<Rightarrow> drain_loop out stack)"

section \<open>Thompson construction\<close>

text \<open>
  A \<open>State\<close> object is mutable and compared by identity (\<open>eq=False\<close>). The objects
  live in an explicit store: a state is named by its \<open>id\<close>, which the counter \<open>_id\<close>
  hands out once, and the store \<open>mem\<close> maps each state that exists to its \<open>edges\<close>
  dictionary. Store and dictionaries are association lists in insertion order, read
  with \<open>map_of\<close> and written with \<open>AList.update\<close>; the dictionary
  \<open>Dict[str, Set[State]]\<close> maps a label to the states of the set, listed without
  repetition. \<open>cur_id\<close> is the global \<open>_id\<close>.
\<close>

type_synonym edges = "(pychar \<times> nat list) list"

record world =
  cur_id :: nat
  mem :: "(nat \<times> edges) list"

text \<open>\<open>u.edges\<close>; a state that does not exist has no edges.\<close>

definition edges_of :: "world \<Rightarrow> nat \<Rightarrow> edges" where
  "edges_of w u = (case map_of (mem w) u of None \<Rightarrow> [] | Some e \<Rightarrow> e)"

text \<open>\<open>edges.get(sym, set())\<close>\<close>

definition get_edges :: "edges \<Rightarrow> pychar \<Rightarrow> nat list" where
  "get_edges e symb = (case map_of e symb of None \<Rightarrow> [] | Some vs \<Rightarrow> vs)"

text \<open>\<open>edges.setdefault(sym, set()).add(to_state)\<close>\<close>

definition setdefault_add :: "edges \<Rightarrow> pychar \<Rightarrow> nat \<Rightarrow> edges" where
  "setdefault_add e symb to_state =
     AList.update symb (List.insert to_state (get_edges e symb)) e"

definition add_edge :: "nat \<Rightarrow> pychar \<Rightarrow> nat \<Rightarrow> world \<Rightarrow> world" where
  "add_edge u symb to_state w =
     w\<lparr>mem := AList.update u (setdefault_add (edges_of w u) symb to_state) (mem w)\<rparr>"

text \<open>\<open>State()\<close>: \<open>new_id\<close> increments the counter and returns it; the new state has no edges.\<close>

definition State :: "world \<Rightarrow> nat \<times> world" where
  "State w = (let i = cur_id w + 1 in (i, w\<lparr>cur_id := i, mem := AList.update i [] (mem w)\<rparr>))"

record Fragment =
  start :: nat
  accept :: nat

record NFA =
  start :: nat
  accept :: nat
  states :: "nat set"

definition sym_frag :: "pychar \<Rightarrow> world \<Rightarrow> Fragment \<times> world" where
  "sym_frag s w =
     (case State w of (a, w1) \<Rightarrow>
      case State w1 of (b, w2) \<Rightarrow>
        (\<lparr>Fragment.start = a, accept = b\<rparr>, add_edge a (if s = EPS then EPS else s) b w2))"

text \<open>
  One iteration of \<open>for tok in post\<close>. The stack of fragments has its top at the head;
  \<open>stack.pop()\<close> on an empty stack raises \<open>IndexError\<close>.
\<close>

definition thompson_step ::
  "pychar \<Rightarrow> Fragment list \<times> world \<Rightarrow> error + Fragment list \<times> world" where
  "thompson_step tok st =
     (case st of (stack, w) \<Rightarrow>
        if tok = ord CHR ''|'' then
          (case stack of
             b # a # stack1 \<Rightarrow>
               (case State w of (s, w1) \<Rightarrow>
                case State w1 of (t, w2) \<Rightarrow>
                  let w3 = add_edge s EPS (Fragment.start a) w2;
                      w4 = add_edge s EPS (Fragment.start b) w3;
                      w5 = add_edge (Fragment.accept a) EPS t w4;
                      w6 = add_edge (Fragment.accept b) EPS t w5
                  in Inr (\<lparr>Fragment.start = s, accept = t\<rparr> # stack1, w6))
           | _ \<Rightarrow> Inl IndexError)
        else if tok = ord CHR ''.'' then
          (case stack of
             b # a # stack1 \<Rightarrow>
               let w1 = add_edge (Fragment.accept a) EPS (Fragment.start b) w
               in Inr (\<lparr>Fragment.start = Fragment.start a, accept = Fragment.accept b\<rparr> # stack1, w1)
           | _ \<Rightarrow> Inl IndexError)
        else if tok = ord CHR ''*'' then
          (case stack of
             a # stack1 \<Rightarrow>
               (case State w of (s, w1) \<Rightarrow>
                case State w1 of (t, w2) \<Rightarrow>
                  let w3 = add_edge s EPS (Fragment.start a) w2;
                      w4 = add_edge s EPS t w3;
                      w5 = add_edge (Fragment.accept a) EPS (Fragment.start a) w4;
                      w6 = add_edge (Fragment.accept a) EPS t w5
                  in Inr (\<lparr>Fragment.start = s, accept = t\<rparr> # stack1, w6))
           | [] \<Rightarrow> Inl IndexError)
        else if tok = ord CHR ''+'' then
          (case stack of
             a # stack1 \<Rightarrow>
               (case State w of (s, w1) \<Rightarrow>
                case State w1 of (t, w2) \<Rightarrow>
                  let w3 = add_edge s EPS (Fragment.start a) w2;
                      w4 = add_edge (Fragment.accept a) EPS (Fragment.start a) w3;
                      w5 = add_edge (Fragment.accept a) EPS t w4
                  in Inr (\<lparr>Fragment.start = s, accept = t\<rparr> # stack1, w5))
           | [] \<Rightarrow> Inl IndexError)
        else if tok = ord CHR ''?'' then
          (case stack of
             a # stack1 \<Rightarrow>
               (case State w of (s, w1) \<Rightarrow>
                case State w1 of (t, w2) \<Rightarrow>
                  let w3 = add_edge s EPS (Fragment.start a) w2;
                      w4 = add_edge s EPS t w3;
                      w5 = add_edge (Fragment.accept a) EPS t w4
                  in Inr (\<lparr>Fragment.start = s, accept = t\<rparr> # stack1, w5))
           | [] \<Rightarrow> Inl IndexError)
        else
          (case sym_frag tok w of (f, w1) \<Rightarrow> Inr (f # stack, w1)))"

fun thompson_loop ::
  "pystr \<Rightarrow> Fragment list \<times> world \<Rightarrow> error + Fragment list \<times> world" where
  "thompson_loop [] st = Inr st"
| "thompson_loop (tok # post) st =
     (case thompson_step tok st of
        Inl e \<Rightarrow> Inl e
      | Inr st1 \<Rightarrow> thompson_loop post st1)"

text \<open>
  The states that \<open>for succs in u.edges.values(): for v in succs\<close> visits, in one list.
\<close>

definition successors :: "world \<Rightarrow> nat \<Rightarrow> nat list" where
  "successors w u = concat (map snd (edges_of w u))"

text \<open>
  The recursive \<open>dfs\<close> with its shared set \<open>visited\<close>: \<open>dfs w us visited\<close> is
  \<open>for u in us: dfs(u)\<close> and returns the set \<open>visited\<close> afterwards, so that the source's
  \<open>dfs(u)\<close> is \<open>dfs w [u] visited\<close>.
\<close>

function dfs :: "world \<Rightarrow> nat list \<Rightarrow> nat set \<Rightarrow> nat set" where
  "dfs w [] visited = visited"
| "dfs w (u # us) visited =
     (if u \<in> visited then dfs w us visited
      else dfs w us (dfs w (successors w u) (insert u visited)))"
  by pat_completeness auto

text \<open>
  Termination: a call on a state of the store outside \<open>visited\<close> makes the set of
  unvisited states of the store smaller; a state that is not in the store has no
  successors; and a call never removes a state from \<open>visited\<close>.
\<close>

lemma dfs_grows: "dfs_dom (w, us, visited) \<Longrightarrow> visited \<subseteq> dfs w us visited"
  by (induction w us visited rule: dfs.pinduct) (auto simp: dfs.psimps)

lemma edges_of_unallocated: "u \<notin> fst ` set (mem w) \<Longrightarrow> edges_of w u = []"
proof -
  assume "u \<notin> fst ` set (mem w)"
  then have "map_of (mem w) u = None"
    by (simp add: map_of_eq_None_iff)
  then show ?thesis
    by (simp add: edges_of_def)
qed

lemma successors_unallocated: "u \<notin> fst ` set (mem w) \<Longrightarrow> successors w u = []"
  by (simp add: successors_def edges_of_unallocated)

termination dfs
proof (relation "inv_image (less_than <*lex*> less_than)
         (\<lambda>(w, us, visited). (card (fst ` set (mem w) - visited), length us))", goal_cases)
  case 1
  show ?case by (intro wf_inv_image wf_lex_prod wf_less_than)
next
  case (2 w u us visited)
  then show ?case by simp
next
  case (3 w u us visited)
  let ?U = "fst ` set (mem w)"
  show ?case
  proof (cases "u \<in> ?U")
    case True
    with 3 have "?U - insert u visited \<subset> ?U - visited"
      by auto
    then have "card (?U - insert u visited) < card (?U - visited)"
      by (intro psubset_card_mono) auto
    then show ?thesis by simp
  next
    case False
    then have "?U - insert u visited = ?U - visited"
      by auto
    with False show ?thesis by (simp add: successors_unallocated)
  qed
next
  case (4 w u us visited)
  let ?U = "fst ` set (mem w)"
  from dfs_grows [OF 4(2)]
  have "?U - dfs w (successors w u) (insert u visited) \<subseteq> ?U - visited"
    by auto
  then have "card (?U - dfs w (successors w u) (insert u visited)) \<le> card (?U - visited)"
    by (intro card_mono) auto
  then show ?case by auto
qed

text \<open>
  \<open>thompson_from_postfix\<close>, from the world \<open>w0\<close> it is called in. After the loop the
  stack must hold one fragment; \<open>stack.pop()\<close> then returns it.
\<close>

definition thompson_from_postfix :: "pystr \<Rightarrow> world \<Rightarrow> error + NFA \<times> world" where
  "thompson_from_postfix post w0 =
     (case thompson_loop post ([], w0) of
        Inl e \<Rightarrow> Inl e
      | Inr (stack, w) \<Rightarrow>
          if length stack \<noteq> 1 then Inl InvalidConstruction
          else
            (let frag = hd stack;
                 visited = dfs w [Fragment.start frag] {}
             in Inr (\<lparr>NFA.start = Fragment.start frag, accept = Fragment.accept frag,
                      states = visited\<rparr>, w)))"

section \<open>Simulation\<close>

text \<open>
  The inner loop of \<open>epsilon_closure\<close>:
  \<open>for v in ...: if v not in closure: closure.add(v); stack.append(v)\<close>.
  The work stack has its top at the head.
\<close>

fun push_new :: "nat list \<Rightarrow> nat set \<times> nat list \<Rightarrow> nat set \<times> nat list" where
  "push_new [] (closure, stack) = (closure, stack)"
| "push_new (v # vs) (closure, stack) =
     (if v \<notin> closure then push_new vs (insert v closure, v # stack)
      else push_new vs (closure, stack))"

text \<open>Every state that an edge of a state of the store leads to.\<close>

definition universe :: "world \<Rightarrow> nat set" where
  "universe w = (\<Union>u\<in>fst ` set (mem w). set (successors w u))"

function closure_loop :: "world \<Rightarrow> nat list \<Rightarrow> nat set \<Rightarrow> nat set" where
  "closure_loop w [] closure = closure"
| "closure_loop w (s # stack) closure =
     (case push_new (get_edges (edges_of w s) EPS) (closure, stack) of
        (closure1, stack1) \<Rightarrow> closure_loop w stack1 closure1)"
  by pat_completeness auto

text \<open>
  Termination: an iteration that adds nothing to \<open>closure\<close> shortens the stack, and
  one that adds a state adds a state of the finite \<open>universe\<close>.
\<close>

lemma push_new_props:
  "push_new vs (closure, stack) = (closure1, stack1) \<Longrightarrow>
     closure \<subseteq> closure1 \<and> closure1 \<subseteq> closure \<union> set vs \<and> (closure1 = closure \<longrightarrow> stack1 = stack)"
proof (induction vs arbitrary: closure stack)
  case Nil
  then show ?case by simp
next
  case (Cons v vs)
  show ?case
  proof (cases "v \<in> closure")
    case True
    with Cons.prems have "push_new vs (closure, stack) = (closure1, stack1)" by simp
    from Cons.IH [OF this] show ?thesis by auto
  next
    case False
    with Cons.prems have "push_new vs (insert v closure, v # stack) = (closure1, stack1)" by simp
    from Cons.IH [OF this] False show ?thesis by auto
  qed
qed

lemma get_edges_successors: "set (get_edges (edges_of w s) symb) \<subseteq> set (successors w s)"
proof
  fix v
  assume "v \<in> set (get_edges (edges_of w s) symb)"
  then obtain vs where "map_of (edges_of w s) symb = Some vs" and v: "v \<in> set vs"
    by (cases "map_of (edges_of w s) symb") (auto simp: get_edges_def)
  then have "(symb, vs) \<in> set (edges_of w s)"
    by (simp add: map_of_SomeD)
  with v show "v \<in> set (successors w s)"
    by (force simp: successors_def)
qed

lemma finite_universe: "finite (universe w)"
  by (simp add: universe_def)

lemma eps_targets_universe: "set (get_edges (edges_of w s) EPS) \<subseteq> universe w"
proof (cases "s \<in> fst ` set (mem w)")
  case True
  have "set (get_edges (edges_of w s) EPS) \<subseteq> set (successors w s)"
    by (rule get_edges_successors)
  with True show ?thesis by (auto simp: universe_def)
next
  case False
  then show ?thesis by (simp add: edges_of_unallocated get_edges_def)
qed

termination closure_loop
proof (relation "inv_image (less_than <*lex*> less_than)
         (\<lambda>(w, stack, closure). (card (universe w - closure), length stack))", goal_cases)
  case 1
  show ?case by (intro wf_inv_image wf_lex_prod wf_less_than)
next
  case (2 w s stack closure closure1 stack1)
  then have pn: "push_new (get_edges (edges_of w s) EPS) (closure, stack) = (closure1, stack1)"
    by simp
  note props = push_new_props [OF pn]
  show ?case
  proof (cases "closure1 = closure")
    case True
    with props show ?thesis by simp
  next
    case False
    with props eps_targets_universe [of w s]
    have "universe w - closure1 \<subset> universe w - closure" by blast
    then have "card (universe w - closure1) < card (universe w - closure)"
      by (intro psubset_card_mono) (auto simp: finite_universe)
    then show ?thesis by simp
  qed
qed

text \<open>
  \<open>list(states)\<close> lists a set in an order Python does not fix; the model lists it in
  increasing order of the ids. \<open>sts\<close> is the parameter \<open>states\<close>.
\<close>

definition epsilon_closure :: "world \<Rightarrow> nat set \<Rightarrow> nat set" where
  "epsilon_closure w sts = closure_loop w (sorted_list_of_set sts) sts"

definition move :: "world \<Rightarrow> nat set \<Rightarrow> pychar \<Rightarrow> nat set" where
  "move w sts symb = (\<Union>s\<in>sts. set (get_edges (edges_of w s) symb))"

text \<open>
  The loop \<open>for ch in w\<close> of \<open>nfa_accepts\<close>, with its \<open>break\<close>; it returns the last
  value of \<open>current\<close>.
\<close>

fun accepts_loop :: "world \<Rightarrow> nat set \<Rightarrow> pystr \<Rightarrow> nat set" where
  "accepts_loop w current [] = current"
| "accepts_loop w current (ch # rest) =
     (let current1 = epsilon_closure w (move w current ch)
      in if current1 = {} then current1 else accepts_loop w current1 rest)"

definition nfa_accepts :: "world \<Rightarrow> NFA \<Rightarrow> pystr \<Rightarrow> bool" where
  "nfa_accepts w nfa word \<longleftrightarrow>
     NFA.accept nfa \<in> accepts_loop w (epsilon_closure w {NFA.start nfa}) word"

section \<open>Front end\<close>

text \<open>
  \<open>compile_regex_to_nfa\<close> resets the counter; no state of an earlier compilation can be
  reached from the new ones, so the compilation starts in a store without states. The
  result is the automaton together with the store its states live in.
\<close>

definition compile_regex_to_nfa :: "pystr \<Rightarrow> error + NFA \<times> world" where
  "compile_regex_to_nfa regex =
     (let w0 = \<lparr>cur_id = 0, mem = []\<rparr>;
          s = add_concat (remove_spaces regex)
      in case to_postfix s of
           Inl e \<Rightarrow> Inl e
         | Inr post \<Rightarrow> thompson_from_postfix post w0)"

section \<open>The specification's own definitions\<close>

text \<open>
  The rule of the concatenation expander as the specification words it. A literal
  symbol is any character not in the fixed operator set (so the empty-string marker,
  which is no operator, is one); the operator is inserted between the adjacent pair
  \<open>(a, b)\<close> exactly when \<open>concat_between a b\<close>.
\<close>

definition literal_symbol :: "pychar \<Rightarrow> bool" where
  "literal_symbol ch \<longleftrightarrow>
     ch \<notin> {ord CHR ''|'', ord CHR ''.'', ord CHR ''*'', ord CHR ''+'', ord CHR ''?'',
            ord CHR ''('', ord CHR '')''}"

definition concat_between :: "pychar \<Rightarrow> pychar \<Rightarrow> bool" where
  "concat_between a b \<longleftrightarrow>
     (literal_symbol a \<or> a = ord CHR '')'' \<or> a = ord CHR ''*'' \<or> a = ord CHR ''+'' \<or> a = ord CHR ''?'')
     \<and> (literal_symbol b \<or> b = ord CHR ''('' \<or> b = EPS)"

fun add_concat_spec :: "pystr \<Rightarrow> pystr" where
  "add_concat_spec [] = []"
| "add_concat_spec [a] = [a]"
| "add_concat_spec (a # b # rest) =
     (if concat_between a b then a # ord CHR ''.'' # add_concat_spec (b # rest)
      else a # add_concat_spec (b # rest))"

text \<open>
  The precedence table and the popping rule of the converter as the specification words
  them: alternation 1, concatenation 2, star, plus and optional 3; alternation and
  concatenation are left-associative. On reading \<open>ch\<close>, the stack top \<open>tp\<close> is popped
  when it is no opening parenthesis and has strictly greater precedence, or equal
  precedence and \<open>ch\<close> is left-associative.
\<close>

definition precedence_spec :: "pychar \<Rightarrow> nat option" where
  "precedence_spec c =
     (if c = ord CHR ''|'' then Some 1
      else if c = ord CHR ''.'' then Some 2
      else if c = ord CHR ''*'' \<or> c = ord CHR ''+'' \<or> c = ord CHR ''?'' then Some 3
      else None)"

definition left_associative :: "pychar \<Rightarrow> bool" where
  "left_associative c \<longleftrightarrow> c = ord CHR ''|'' \<or> c = ord CHR ''.''"

definition pops_spec :: "pychar \<Rightarrow> pychar \<Rightarrow> bool" where
  "pops_spec ch tp \<longleftrightarrow>
     tp \<noteq> ord CHR ''('' \<and>
     (case (precedence_spec tp, precedence_spec ch) of
        (Some ptop, Some pch) \<Rightarrow> ptop > pch \<or> (ptop = pch \<and> left_associative ch)
      | _ \<Rightarrow> False)"

text \<open>
  The reference simulator: it processes every symbol of the word and never breaks.
\<close>

definition nfa_accepts_reference :: "world \<Rightarrow> NFA \<Rightarrow> pystr \<Rightarrow> bool" where
  "nfa_accepts_reference w nfa word \<longleftrightarrow>
     NFA.accept nfa \<in>
       foldl (\<lambda>current ch. epsilon_closure w (move w current ch)) (epsilon_closure w {NFA.start nfa}) word"

section \<open>Transitions, reachability and the invariant of the builder\<close>

text \<open>
  The labelled transitions of a store: \<open>(u, symb, v)\<close> is one when \<open>v\<close> is in
  \<open>u.edges.get(symb, set())\<close>. \<open>step\<close> follows a transition of any label, \<open>eps_step\<close>
  one labelled \<open>EPS\<close>. \<open>states_of\<close> is the set of the states that exist.
\<close>

definition transitions :: "world \<Rightarrow> (nat \<times> pychar \<times> nat) set" where
  "transitions w = {(u, symb, v). v \<in> set (get_edges (edges_of w u) symb)}"

definition step :: "world \<Rightarrow> (nat \<times> nat) set" where
  "step w = {(u, v). \<exists>symb. (u, symb, v) \<in> transitions w}"

definition eps_step :: "world \<Rightarrow> (nat \<times> nat) set" where
  "eps_step w = {(u, v). (u, EPS, v) \<in> transitions w}"

definition states_of :: "world \<Rightarrow> nat set" where
  "states_of w = fst ` set (mem w)"

text \<open>
  \<open>succ_rel\<close> is the relation that \<open>dfs\<close> follows, \<open>allocated w\<close> the store after one
  \<open>State()\<close>, and \<open>add_edges es w\<close> the store after the calls of \<open>add_edge\<close> for the
  transitions \<open>es\<close>, in order.
\<close>

definition succ_rel :: "world \<Rightarrow> (nat \<times> nat) set" where
  "succ_rel w = {(u, v). v \<in> set (successors w u)}"

definition allocated :: "world \<Rightarrow> world" where
  "allocated w = snd (State w)"

definition add_edges :: "(nat \<times> pychar \<times> nat) list \<Rightarrow> world \<Rightarrow> world" where
  "add_edges es w = fold (\<lambda>(u, symb, v). add_edge u symb v) es w"

text \<open>
  The invariant of the builder's loop. In the store, no state has an id above the
  counter and no dictionary has a key twice. Every fragment on the stack has its entry
  and its exit in the store, its exit has no edge yet and is reachable from its entry,
  and no two fragments share an exit.
\<close>

definition store_ok :: "world \<Rightarrow> bool" where
  "store_ok w \<longleftrightarrow> states_of w \<subseteq> {..cur_id w} \<and> (\<forall>u. distinct (map fst (edges_of w u)))"

definition frag_ok :: "world \<Rightarrow> Fragment \<Rightarrow> bool" where
  "frag_ok w f \<longleftrightarrow>
     Fragment.start f \<in> states_of w \<and> Fragment.accept f \<in> states_of w \<and>
     edges_of w (Fragment.accept f) = [] \<and>
     (Fragment.start f, Fragment.accept f) \<in> (step w)\<^sup>*"

definition builder_inv :: "Fragment list \<times> world \<Rightarrow> bool" where
  "builder_inv st \<longleftrightarrow>
     (case st of (stack, w) \<Rightarrow>
        store_ok w \<and> distinct (map Fragment.accept stack) \<and> (\<forall>f\<in>set stack. frag_ok w f))"

text \<open>
  Runs as examples: the fragment and the store after the token \<open>a\<close>, the automaton and
  the store of the regex \<open>a*\<close>, the store after the tokens \<open>a b\<close>, and the automata and
  the stores of the regexes \<open>ab*\<close> and \<open>a+*\<close>.
\<close>

definition frag_a :: Fragment where
  "frag_a = \<lparr>Fragment.start = 1, accept = 2\<rparr>"

definition world_a :: world where
  "world_a = \<lparr>cur_id = 2, mem = [(1, [(97, [2])]), (2, [])]\<rparr>"

definition nfa_a_star :: NFA where
  "nfa_a_star = \<lparr>NFA.start = 3, accept = 4, states = {1, 2, 3, 4}\<rparr>"

definition world_a_star :: world where
  "world_a_star =
     \<lparr>cur_id = 4, mem = [(1, [(97, [2])]), (2, [(EPS, [4, 1])]), (3, [(EPS, [4, 1])]), (4, [])]\<rparr>"






section \<open>Expressions that match the empty word\<close>



text \<open>
  The invariant that ties the two stacks. \<open>reach w x\<close> is the set of the states reachable
  from \<open>x\<close>. In the store every transition leads to a state that exists; the fragments
  on the stack reach pairwise disjoint sets of states; and the truth value of a
  fragment says whether its exit is reachable from its entry by epsilon transitions.
\<close>

definition reach :: "world \<Rightarrow> nat \<Rightarrow> nat set" where
  "reach w x = (step w)\<^sup>* `` {x}"





section \<open>The converter never meets an unsupported symbol\<close>

lemma operator_has_precedence:
  "\<not> is_symbol ch \<Longrightarrow> ch \<noteq> ord CHR ''('' \<Longrightarrow> ch \<noteq> ord CHR '')'' \<Longrightarrow> PRECEDENCE ch \<noteq> None"
  by (auto simp: is_symbol_def PRECEDENCE_def)

lemma to_postfix_step_supported: "to_postfix_step ch st \<noteq> Inl (UnsupportedSymbol c)"
proof (cases st)
  case (Pair out stack)
  show ?thesis
  proof (cases "\<not> is_symbol ch \<and> ch \<noteq> ord CHR ''('' \<and> ch \<noteq> ord CHR '')''")
    case True
    then have "PRECEDENCE ch \<noteq> None" by (simp add: operator_has_precedence)
    with True Pair show ?thesis
      by (simp add: to_postfix_step_def split: prod.splits)
  next
    case False
    with Pair show ?thesis
      by (auto simp: to_postfix_step_def split: prod.splits list.splits)
  qed
qed

lemma to_postfix_loop_supported: "to_postfix_loop s st \<noteq> Inl (UnsupportedSymbol c)"
  by (induction s arbitrary: st) (auto simp: to_postfix_step_supported split: sum.splits)

lemma drain_loop_supported: "drain_loop out stack \<noteq> Inl (UnsupportedSymbol c)"
  by (induction stack arbitrary: out) auto

lemma to_postfix_supported: "to_postfix s \<noteq> Inl (UnsupportedSymbol c)"
  using to_postfix_loop_supported [of s "([], [])" c]
  by (auto simp: to_postfix_def drain_loop_supported split: sum.splits)

lemma thompson_step_errors: "thompson_step tok st = Inl e \<Longrightarrow> e = IndexError"
  by (cases st) (auto simp: thompson_step_def Let_def split: if_splits list.splits prod.splits)

lemma thompson_loop_errors: "thompson_loop post st = Inl e \<Longrightarrow> e = IndexError"
  by (induction post arbitrary: st) (auto split: sum.splits dest: thompson_step_errors)

lemma thompson_from_postfix_errors:
  "thompson_from_postfix post w0 = Inl e \<Longrightarrow> e = IndexError \<or> e = InvalidConstruction"
  by (auto simp: thompson_from_postfix_def Let_def split: sum.splits if_splits dest: thompson_loop_errors)

text \<open>
  C10. For every input string, \<open>compile_regex_to_nfa\<close> never fails with the
  unsupported-symbol error, and no iteration of the converter's loop does: a character
  is classified as a literal symbol exactly when it is none of the seven operator
  characters, the empty-string marker is a literal symbol, and a character that is no
  literal symbol and no parenthesis is a key of \<open>PRECEDENCE\<close>, so the last branch of the
  converter is never taken.
\<close>

theorem unsupported_symbol_unreachable:
  "compile_regex_to_nfa regex \<noteq> Inl (UnsupportedSymbol c)
   \<and> to_postfix_step ch st \<noteq> Inl (UnsupportedSymbol c)
   \<and> (is_symbol ch \<longleftrightarrow>
        ch \<notin> {ord CHR ''|'', ord CHR ''.'', ord CHR ''*'', ord CHR ''+'', ord CHR ''?'',
               ord CHR ''('', ord CHR '')''})
   \<and> is_symbol EPS"
proof -
  have "compile_regex_to_nfa regex \<noteq> Inl (UnsupportedSymbol c)"
    using to_postfix_supported [of "add_concat (remove_spaces regex)" c]
    by (auto simp: compile_regex_to_nfa_def Let_def split: sum.splits dest: thompson_from_postfix_errors)
  moreover have "is_symbol EPS" by (simp add: is_symbol_def EPS_def)
  ultimately show ?thesis
    by (auto simp: to_postfix_step_supported is_symbol_def)
qed

section \<open>The early exit of the simulator\<close>

lemma move_empty: "move w {} ch = {}"
  by (simp add: move_def)

lemma epsilon_closure_empty: "epsilon_closure w {} = {}"
  by (simp add: epsilon_closure_def)

lemma reference_stays_empty:
  "foldl (\<lambda>current ch. epsilon_closure w (move w current ch)) {} word = {}"
  by (induction word) (simp_all add: move_empty epsilon_closure_empty)

lemma accepts_loop_reference:
  "accepts_loop w current word =
     foldl (\<lambda>current ch. epsilon_closure w (move w current ch)) current word"
  by (induction word arbitrary: current) (simp_all add: Let_def reference_stays_empty)

text \<open>
  C9. For every automaton and every word, \<open>nfa_accepts\<close>, which leaves the loop as soon
  as the current set is empty, returns what the reference simulator returns, which
  processes every symbol.
\<close>

theorem break_is_optimisation: "nfa_accepts w nfa word = nfa_accepts_reference w nfa word"
  by (simp add: nfa_accepts_def nfa_accepts_reference_def accepts_loop_reference)

section \<open>The concatenation expander\<close>

lemma add_concat_loop_spec:
  "i \<le> length exp \<Longrightarrow> add_concat_loop exp i res = res @ add_concat_spec (drop i exp)"
proof (induction exp i res rule: add_concat_loop.induct)
  case (1 exp i res)
  show ?case
  proof (cases "i < length exp")
    case False
    with 1 show ?thesis by (subst add_concat_loop.simps) simp
  next
    case lt: True
    show ?thesis
    proof (cases "i = length exp - 1")
      case True
      with lt have d: "drop i exp = [exp ! i]"
        using Cons_nth_drop_Suc [OF lt] by simp
      have "add_concat_loop exp i res = add_concat_loop exp (i + 1) (res @ [exp ! i])"
        using lt True by (subst add_concat_loop.simps) (simp add: Let_def)
      also have "\<dots> = (res @ [exp ! i]) @ add_concat_spec (drop (i + 1) exp)"
        using lt True "1.IH"(1) [OF lt refl refl True] by simp
      finally show ?thesis using d lt True by simp
    next
      case False
      with lt have lt2: "i + 1 < length exp" by simp
      have d1: "drop (i + 1) exp = exp ! (i + 1) # drop (i + 2) exp"
        using Cons_nth_drop_Suc [OF lt2] by simp
      have d: "drop i exp = exp ! i # exp ! (i + 1) # drop (i + 2) exp"
        using Cons_nth_drop_Suc [OF lt] d1 by simp
      let ?c = "(is_symbol (exp ! i) \<or> exp ! i \<in> {ord CHR '')'', ord CHR ''*'', ord CHR ''+'', ord CHR ''?''})
                     \<and> (is_symbol (exp ! (i + 1)) \<or> exp ! (i + 1) \<in> {ord CHR ''('', EPS})"
      have c: "?c \<longleftrightarrow> concat_between (exp ! i) (exp ! (i + 1))"
        by (auto simp: concat_between_def literal_symbol_def is_symbol_def)
      show ?thesis
      proof (cases ?c)
        case True
        have "add_concat_loop exp i res = add_concat_loop exp (i + 1) ((res @ [exp ! i]) @ [ord CHR ''.''])"
          using lt False True by (subst add_concat_loop.simps) (simp add: Let_def)
        also have "\<dots> = ((res @ [exp ! i]) @ [ord CHR ''.'']) @ add_concat_spec (drop (i + 1) exp)"
          using "1.IH"(2) [OF lt refl refl False refl refl True] lt by simp
        finally have unfolded: "add_concat_loop exp i res =
            ((res @ [exp ! i]) @ [ord CHR ''.'']) @ add_concat_spec (drop (i + 1) exp)" .
        from True c have "concat_between (exp ! i) (exp ! (i + 1))" by blast
        with unfolded show ?thesis using d d1 by simp
      next
        case nc: False
        have "add_concat_loop exp i res = add_concat_loop exp (i + 1) (res @ [exp ! i])"
          using lt False nc by (subst add_concat_loop.simps) (auto simp: Let_def)
        also have "\<dots> = (res @ [exp ! i]) @ add_concat_spec (drop (i + 1) exp)"
          using "1.IH"(3) [OF lt refl refl False refl refl nc] lt by simp
        finally have unfolded: "add_concat_loop exp i res =
            (res @ [exp ! i]) @ add_concat_spec (drop (i + 1) exp)" .
        from nc c have "\<not> concat_between (exp ! i) (exp ! (i + 1))" by blast
        with unfolded show ?thesis using d d1 by simp
      qed
    qed
  qed
qed

lemma add_concat_spec_hd: "hd (add_concat_spec (a # rest)) = a"
  by (cases rest) simp_all

lemma add_concat_spec_last: "last (add_concat_spec (rest @ [b])) = b"
proof (induction rest rule: add_concat_spec.induct)
  case (3 a b' rest)
  then show ?case by (cases rest) (auto)
qed simp_all

lemma add_concat_spec_nonempty: "xs \<noteq> [] \<Longrightarrow> add_concat_spec xs \<noteq> []"
  by (cases xs rule: add_concat_spec.cases) auto

text \<open>
  C6. For every input sequence, \<open>add_concat\<close> is the specification's rule: the
  concatenation operator is inserted between an adjacent pair \<open>(a, b)\<close> exactly when
  \<open>a\<close> is a literal symbol, a closing parenthesis or one of star, plus, optional, and
  \<open>b\<close> is a literal symbol, an opening parenthesis or the empty-string marker. Nothing
  is inserted at the boundaries: the result starts with the first character of the
  input and ends with its last.
\<close>

theorem add_concat_rule:
  "add_concat exp = add_concat_spec exp
   \<and> hd (add_concat (a # rest)) = a
   \<and> last (add_concat (rest @ [b])) = b"
proof -
  have eq: "add_concat xs = add_concat_spec xs" for xs
    using add_concat_loop_spec [of 0 xs "[]"] by (simp add: add_concat_def)
  show ?thesis
    by (simp add: eq add_concat_spec_hd add_concat_spec_last)
qed

section \<open>Precedence and popping in the converter\<close>

lemma PRECEDENCE_spec: "PRECEDENCE = precedence_spec"
  by (rule ext) (simp add: PRECEDENCE_def precedence_spec_def)

lemma operator_loop_step:
  "operator_loop ch out (tp # stack) =
     (if pops_spec ch tp then operator_loop ch (out @ [tp]) stack else (out, tp # stack))"
  by (auto simp: pops_spec_def PRECEDENCE_spec precedence_spec_def left_associative_def
      RIGHT_ASSOC_def split: option.splits)

lemma operator_loop_takeWhile:
  "operator_loop ch out stack =
     (out @ takeWhile (pops_spec ch) stack, dropWhile (pops_spec ch) stack)"
proof (induction stack arbitrary: out)
  case Nil
  show ?case by simp
next
  case (Cons tp stack)
  show ?case
    unfolding operator_loop_step by (simp add: Cons.IH)
qed

lemma unary_never_pops:
  "ch = ord CHR ''*'' \<or> ch = ord CHR ''+'' \<or> ch = ord CHR ''?'' \<Longrightarrow> \<not> pops_spec ch tp"
  by (auto simp: pops_spec_def precedence_spec_def left_associative_def split: option.splits)

lemma to_postfix_loop_append:
  "to_postfix_loop (p @ q) st =
     (case to_postfix_loop p st of Inl e \<Rightarrow> Inl e | Inr st1 \<Rightarrow> to_postfix_loop q st1)"
  by (induction p arbitrary: st) (auto split: sum.splits)

lemma to_postfix_step_operator:
  "PRECEDENCE ch \<noteq> None \<Longrightarrow>
   to_postfix_step ch (out, stack) =
     Inr (out @ takeWhile (pops_spec ch) stack, ch # dropWhile (pops_spec ch) stack)"
proof -
  assume p: "PRECEDENCE ch \<noteq> None"
  then have "ch \<in> {ord CHR ''|'', ord CHR ''.'', ord CHR ''*'', ord CHR ''+'', ord CHR ''?''}"
    by (auto simp: PRECEDENCE_def split: if_splits)
  then have "ch \<noteq> EPS" "\<not> is_symbol ch" "ch \<noteq> ord CHR ''(''" "ch \<noteq> ord CHR '')''"
    by (auto simp: EPS_def is_symbol_def)
  with p show ?thesis
    by (simp add: to_postfix_step_def operator_loop_takeWhile)
qed

text \<open>
  C5. The table \<open>PRECEDENCE\<close> is alternation 1, concatenation 2, star, plus and optional
  3. On reading an operator \<open>ch\<close>, the converter pops exactly the longest run of stack
  tops that are no opening parenthesis and have strictly greater precedence than \<open>ch\<close>,
  or equal precedence when \<open>ch\<close> is alternation or concatenation, appends them to the
  output in the order popped, and pushes \<open>ch\<close>: this is what the loop \<open>operator_loop\<close>
  does, what one iteration \<open>to_postfix_step\<close> of the converter does on an operator, and
  how \<open>to_postfix\<close> goes on after a prefix \<open>pre\<close> of its input. When \<open>ch\<close> is star,
  plus or optional nothing is popped, an operator of equal precedence included, and an
  opening parenthesis is never popped.
\<close>

theorem precedence_and_popping:
  "PRECEDENCE = precedence_spec
   \<and> operator_loop ch out stack =
       (out @ takeWhile (pops_spec ch) stack, dropWhile (pops_spec ch) stack)
   \<and> operator_loop (ord CHR ''*'') out stack = (out, stack)
   \<and> operator_loop (ord CHR ''+'') out stack = (out, stack)
   \<and> operator_loop (ord CHR ''?'') out stack = (out, stack)
   \<and> (PRECEDENCE ch \<noteq> None \<longrightarrow>
        to_postfix_step ch (out, stack) =
          Inr (out @ takeWhile (pops_spec ch) stack, ch # dropWhile (pops_spec ch) stack)
        \<and> to_postfix_loop (ch # rest) (out, stack) =
          to_postfix_loop rest (out @ takeWhile (pops_spec ch) stack, ch # dropWhile (pops_spec ch) stack))
   \<and> (PRECEDENCE ch \<noteq> None \<and> to_postfix_loop pre ([], []) = Inr (out1, stack1) \<longrightarrow>
        to_postfix (pre @ ch # rest) =
          (case to_postfix_loop rest
                  (out1 @ takeWhile (pops_spec ch) stack1, ch # dropWhile (pops_spec ch) stack1) of
             Inl e \<Rightarrow> Inl e
           | Inr (out2, stack2) \<Rightarrow> drain_loop out2 stack2))
   \<and> to_postfix_step (ord CHR ''*'') (out, stack) = Inr (out, ord CHR ''*'' # stack)
   \<and> to_postfix_step (ord CHR ''+'') (out, stack) = Inr (out, ord CHR ''+'' # stack)
   \<and> to_postfix_step (ord CHR ''?'') (out, stack) = Inr (out, ord CHR ''?'' # stack)
   \<and> \<not> pops_spec ch (ord CHR ''('')"
proof -
  have un: "takeWhile (pops_spec c) stack = [] \<and> dropWhile (pops_spec c) stack = stack"
    if "c = ord CHR ''*'' \<or> c = ord CHR ''+'' \<or> c = ord CHR ''?''" for c
    using unary_never_pops [OF that] by (cases stack) simp_all
  have prec: "PRECEDENCE c \<noteq> None"
    if "c = ord CHR ''*'' \<or> c = ord CHR ''+'' \<or> c = ord CHR ''?''" for c
    using that by (auto simp: PRECEDENCE_def)
  have step: "to_postfix_step c (out, stack) = Inr (out, c # stack)"
    if "c = ord CHR ''*'' \<or> c = ord CHR ''+'' \<or> c = ord CHR ''?''" for c
    using to_postfix_step_operator [OF prec [OF that], of out stack] un [OF that] by simp
  have 1: "PRECEDENCE = precedence_spec"
    by (rule PRECEDENCE_spec)
  have 2: "operator_loop ch out stack =
       (out @ takeWhile (pops_spec ch) stack, dropWhile (pops_spec ch) stack)"
    by (rule operator_loop_takeWhile)
  have 3: "operator_loop c out stack = (out, stack)"
    if "c = ord CHR ''*'' \<or> c = ord CHR ''+'' \<or> c = ord CHR ''?''" for c
    using un [OF that] by (simp add: operator_loop_takeWhile)
  have 4: "PRECEDENCE ch \<noteq> None \<longrightarrow>
        to_postfix_step ch (out, stack) =
          Inr (out @ takeWhile (pops_spec ch) stack, ch # dropWhile (pops_spec ch) stack)
        \<and> to_postfix_loop (ch # rest) (out, stack) =
          to_postfix_loop rest (out @ takeWhile (pops_spec ch) stack, ch # dropWhile (pops_spec ch) stack)"
    by (simp add: to_postfix_step_operator)
  have 6: "PRECEDENCE ch \<noteq> None \<and> to_postfix_loop pre ([], []) = Inr (out1, stack1) \<longrightarrow>
        to_postfix (pre @ ch # rest) =
          (case to_postfix_loop rest
                  (out1 @ takeWhile (pops_spec ch) stack1, ch # dropWhile (pops_spec ch) stack1) of
             Inl e \<Rightarrow> Inl e
           | Inr (out2, stack2) \<Rightarrow> drain_loop out2 stack2)"
    by (simp add: to_postfix_def to_postfix_loop_append to_postfix_step_operator)
  have 5: "\<not> pops_spec ch (ord CHR ''('')"
    by (simp add: pops_spec_def)
  from 1 2 3 [of "ord CHR ''*''"] 3 [of "ord CHR ''+''"] 3 [of "ord CHR ''?''"] 4 6
    step [of "ord CHR ''*''"] step [of "ord CHR ''+''"] step [of "ord CHR ''?''"] 5
  show ?thesis
    by (intro conjI) simp_all
qed

theorem precedence_and_popping_witness:
  "PRECEDENCE (ord CHR ''|'') \<noteq> None
   \<and> to_postfix_step (ord CHR ''|'') ([97, 98], [ord CHR ''.'', ord CHR ''('', ord CHR ''.''])
       = Inr ([97, 98, ord CHR ''.''], [ord CHR ''|'', ord CHR ''('', ord CHR ''.''])
   \<and> to_postfix_loop [97, ord CHR ''.'', 98] ([], []) = Inr ([97, 98], [ord CHR ''.''])
   \<and> to_postfix ([97, ord CHR ''.'', 98] @ ord CHR ''|'' # [99])
       = Inr [97, 98, ord CHR ''.'', 99, ord CHR ''|'']"
proof -
  have loop: "to_postfix_loop [97, ord CHR ''.'', 98] ([], []) = Inr ([97, 98], [ord CHR ''.''])"
    by (simp add: to_postfix_step_def is_symbol_def EPS_def PRECEDENCE_def)
  have prec: "PRECEDENCE (ord CHR ''|'') \<noteq> None"
    by (simp add: PRECEDENCE_def)
  note r = precedence_and_popping [of "ord CHR ''|''" "[97, 98]"
      "[ord CHR ''.'', ord CHR ''('', ord CHR ''.'']" "[99]" "[97, ord CHR ''.'', 98]"
      "[97, 98]" "[ord CHR ''.'']"]
  have pops: "pops_spec (ord CHR ''|'') (ord CHR ''.'')" "\<not> pops_spec (ord CHR ''|'') (ord CHR ''('')"
    by (simp_all add: pops_spec_def precedence_spec_def left_associative_def)
  from r prec have "to_postfix_step (ord CHR ''|'') ([97, 98], [ord CHR ''.'', ord CHR ''('', ord CHR ''.''])
       = Inr ([97, 98, ord CHR ''.''], [ord CHR ''|'', ord CHR ''('', ord CHR ''.''])"
    using pops by simp
  moreover from r prec loop have "to_postfix ([97, ord CHR ''.'', 98] @ ord CHR ''|'' # [99])
       = Inr [97, 98, ord CHR ''.'', 99, ord CHR ''|'']"
    using pops by (simp add: to_postfix_step_def is_symbol_def EPS_def)
  ultimately show ?thesis
    using prec loop by simp
qed

section \<open>The final stack of the builder\<close>

text \<open>
  C8. When the loop of the builder finishes with a stack whose length is not one,
  \<open>thompson_from_postfix\<close>, and with it \<open>compile_regex_to_nfa\<close>, fails with
  \<open>InvalidConstruction\<close>: the result is the error and no automaton. The empty regex
  leaves an empty stack and fails so.
\<close>

theorem not_one_fragment_is_invalid:
  "(thompson_loop post ([], w0) = Inr (stack, w) \<and> length stack \<noteq> 1
      \<longrightarrow> thompson_from_postfix post w0 = Inl InvalidConstruction)
   \<and> (to_postfix (add_concat (remove_spaces regex)) = Inr post1
        \<and> thompson_loop post1 ([], \<lparr>cur_id = 0, mem = []\<rparr>) = Inr (stack1, w1)
        \<and> length stack1 \<noteq> 1
      \<longrightarrow> compile_regex_to_nfa regex = Inl InvalidConstruction)
   \<and> compile_regex_to_nfa [] = Inl InvalidConstruction"
proof -
  have "compile_regex_to_nfa [] = Inl InvalidConstruction"
    by (simp add: compile_regex_to_nfa_def remove_spaces_def add_concat_def
        add_concat_loop.simps to_postfix_def thompson_from_postfix_def)
  then show ?thesis
    by (auto simp: thompson_from_postfix_def compile_regex_to_nfa_def Let_def)
qed

theorem not_one_fragment_is_invalid_witness:
  "thompson_loop [97, 98] ([], \<lparr>cur_id = 0, mem = []\<rparr>) =
     Inr ([\<lparr>Fragment.start = 3, accept = 4\<rparr>, \<lparr>Fragment.start = 1, accept = 2\<rparr>],
          \<lparr>cur_id = 4, mem = [(1, [(97, [2])]), (2, []), (3, [(98, [4])]), (4, [])]\<rparr>)
   \<and> length [\<lparr>Fragment.start = 3, accept = 4\<rparr>, \<lparr>Fragment.start = 1, accept = 2\<rparr>] \<noteq> 1
   \<and> thompson_from_postfix [97, 98] \<lparr>cur_id = 0, mem = []\<rparr> = Inl InvalidConstruction
   \<and> to_postfix (add_concat (remove_spaces [])) = Inr []
   \<and> thompson_loop [] ([], \<lparr>cur_id = 0, mem = []\<rparr>) = Inr ([], \<lparr>cur_id = 0, mem = []\<rparr>)
   \<and> length ([] :: Fragment list) \<noteq> 1
   \<and> compile_regex_to_nfa [] = Inl InvalidConstruction"
proof -
  have run: "thompson_loop [97, 98] ([], \<lparr>cur_id = 0, mem = []\<rparr>) =
     Inr ([\<lparr>Fragment.start = 3, accept = 4\<rparr>, \<lparr>Fragment.start = 1, accept = 2\<rparr>],
          \<lparr>cur_id = 4, mem = [(1, [(97, [2])]), (2, []), (3, [(98, [4])]), (4, [])]\<rparr>)"
    by code_simp
  have post: "to_postfix (add_concat (remove_spaces [])) = Inr []"
    by code_simp
  from run post
    not_one_fragment_is_invalid [where post = "[97, 98]" and ?w0.0 = "\<lparr>cur_id = 0, mem = []\<rparr>"
      and stack = "[\<lparr>Fragment.start = 3, accept = 4\<rparr>, \<lparr>Fragment.start = 1, accept = 2\<rparr>]"
      and w = "\<lparr>cur_id = 4, mem = [(1, [(97, [2])]), (2, []), (3, [(98, [4])]), (4, [])]\<rparr>"
      and regex = "[]" and ?post1.0 = "[]" and ?stack1.0 = "[]"
      and ?w1.0 = "\<lparr>cur_id = 0, mem = []\<rparr>"]
  show ?thesis by simp
qed

section \<open>The epsilon-closure and the empty word\<close>

lemma push_new_result:
  "push_new vs (closure, stack) = (closure1, stack1) \<Longrightarrow>
     closure1 = closure \<union> set vs \<and> set stack1 = set stack \<union> (set vs - closure)"
proof (induction vs arbitrary: closure stack)
  case Nil
  then show ?case by simp
next
  case (Cons v vs)
  show ?case
  proof (cases "v \<in> closure")
    case True
    with Cons.prems have "push_new vs (closure, stack) = (closure1, stack1)" by simp
    from Cons.IH [OF this] True show ?thesis by auto
  next
    case False
    with Cons.prems have "push_new vs (insert v closure, v # stack) = (closure1, stack1)" by simp
    from Cons.IH [OF this] False show ?thesis by auto
  qed
qed

lemma eps_step_Image: "eps_step w `` {s} = set (get_edges (edges_of w s) EPS)"
  by (auto simp: eps_step_def transitions_def)

lemma closure_loop_correct:
  "set stack \<subseteq> closure \<Longrightarrow>
   (\<And>x. x \<in> closure \<Longrightarrow> x \<notin> set stack \<Longrightarrow> eps_step w `` {x} \<subseteq> closure) \<Longrightarrow>
   closure_loop w stack closure = (eps_step w)\<^sup>* `` closure"
proof (induction w stack closure rule: closure_loop.induct)
  case (1 w closure)
  have "(eps_step w)\<^sup>* `` closure \<subseteq> closure"
  proof
    fix y
    assume "y \<in> (eps_step w)\<^sup>* `` closure"
    then obtain x where "x \<in> closure" and "(x, y) \<in> (eps_step w)\<^sup>*" by auto
    from this(2) this(1) show "y \<in> closure"
      by (induction rule: rtrancl_induct) (use 1 in auto)
  qed
  then show ?case by auto
next
  case (2 w s stack closure)
  obtain closure1 stack1 where
    pn: "push_new (get_edges (edges_of w s) EPS) (closure, stack) = (closure1, stack1)"
    by (cases "push_new (get_edges (edges_of w s) EPS) (closure, stack)")
  note res = push_new_result [OF pn]
  from res have c1: "closure1 = closure \<union> eps_step w `` {s}"
    by (simp add: eps_step_Image)
  have sub: "set stack1 \<subseteq> closure1"
    using res "2.prems"(1) by auto
  have closed: "eps_step w `` {x} \<subseteq> closure1" if "x \<in> closure1" "x \<notin> set stack1" for x
  proof (cases "x = s")
    case True
    then show ?thesis using c1 by auto
  next
    case False
    from that res have "x \<in> closure" by auto
    moreover from that res False have "x \<notin> set (s # stack)" by auto
    ultimately have "eps_step w `` {x} \<subseteq> closure" by (rule "2.prems"(2))
    then show ?thesis using c1 by auto
  qed
  have "closure_loop w (s # stack) closure = closure_loop w stack1 closure1"
    using pn by simp
  also have "\<dots> = (eps_step w)\<^sup>* `` closure1"
    using "2.IH" [OF pn [symmetric] sub closed] by simp
  also have "\<dots> = (eps_step w)\<^sup>* `` closure"
  proof
    show "(eps_step w)\<^sup>* `` closure1 \<subseteq> (eps_step w)\<^sup>* `` closure"
    proof
      fix y
      assume "y \<in> (eps_step w)\<^sup>* `` closure1"
      then obtain x where x: "x \<in> closure1" and xy: "(x, y) \<in> (eps_step w)\<^sup>*" by auto
      show "y \<in> (eps_step w)\<^sup>* `` closure"
      proof (cases "x \<in> closure")
        case True
        with xy show ?thesis by auto
      next
        case False
        with x c1 have "(s, x) \<in> eps_step w" by auto
        with xy have "(s, y) \<in> (eps_step w)\<^sup>*" by (simp add: converse_rtrancl_into_rtrancl)
        moreover have "s \<in> closure" using "2.prems"(1) by simp
        ultimately show ?thesis by auto
      qed
    qed
    show "(eps_step w)\<^sup>* `` closure \<subseteq> (eps_step w)\<^sup>* `` closure1"
      using c1 by auto
  qed
  finally show ?case .
qed

lemma epsilon_closure_correct:
  assumes "finite S"
  shows "epsilon_closure w S = (eps_step w)\<^sup>* `` S"
  unfolding epsilon_closure_def
  by (rule closure_loop_correct) (use assms in auto)


text \<open>
  C3. For every automaton, and so for every automaton that \<open>compile_regex_to_nfa\<close>
  returns, \<open>nfa_accepts\<close> on the empty word is true exactly when the accept state is in
  the epsilon-closure of the set that holds the start state alone; and that closure, as
  \<open>epsilon_closure\<close> computes it, is the set of the states reachable from the start
  state by epsilon transitions.
\<close>

theorem empty_word_accepted:
  "(nfa_accepts w nfa [] \<longleftrightarrow> NFA.accept nfa \<in> epsilon_closure w {NFA.start nfa})
   \<and> epsilon_closure w {NFA.start nfa} = {v. (NFA.start nfa, v) \<in> (eps_step w)\<^sup>*}"
  by (auto simp: nfa_accepts_def epsilon_closure_correct)


section \<open>The store under the builder's operations\<close>

lemma State_eq: "State w = (cur_id w + 1, allocated w)"
  by (simp add: State_def allocated_def Let_def)

lemma get_edges_setdefault_add:
  "get_edges (setdefault_add e symb v) symb' =
     (if symb' = symb then List.insert v (get_edges e symb) else get_edges e symb')"
  by (simp add: get_edges_def setdefault_add_def AList.update_conv')

lemma keys_setdefault_add:
  "distinct (map fst e) \<Longrightarrow> distinct (map fst (setdefault_add e symb v))"
  by (simp add: setdefault_add_def AList.distinct_update)

lemma edges_of_add_edge:
  "edges_of (add_edge u symb v w) x =
     (if x = u then setdefault_add (edges_of w u) symb v else edges_of w x)"
  by (simp add: edges_of_def add_edge_def AList.update_conv')

lemma cur_id_add_edge: "cur_id (add_edge u symb v w) = cur_id w"
  by (simp add: add_edge_def)

lemma states_of_add_edge: "states_of (add_edge u symb v w) = insert u (states_of w)"
  by (simp add: states_of_def add_edge_def AList.dom_update)

lemma transitions_add_edge:
  "transitions (add_edge u symb v w) = insert (u, symb, v) (transitions w)"
  by (auto simp: transitions_def edges_of_add_edge get_edges_setdefault_add split: if_splits)

lemma cur_id_allocated: "cur_id (allocated w) = cur_id w + 1"
  by (simp add: allocated_def State_def Let_def)

lemma edges_of_allocated:
  "edges_of (allocated w) x = (if x = cur_id w + 1 then [] else edges_of w x)"
  by (simp add: allocated_def State_def Let_def edges_of_def AList.update_conv')

lemma states_of_allocated: "states_of (allocated w) = insert (cur_id w + 1) (states_of w)"
  by (simp add: allocated_def State_def Let_def states_of_def AList.dom_update)

lemma edges_of_not_state: "u \<notin> states_of w \<Longrightarrow> edges_of w u = []"
  by (simp add: states_of_def edges_of_unallocated)

lemma transitions_allocated:
  "cur_id w + 1 \<notin> states_of w \<Longrightarrow> transitions (allocated w) = transitions w"
  by (auto simp: transitions_def edges_of_allocated edges_of_not_state get_edges_def split: if_splits)


lemma store_ok_add_edge: "store_ok w \<Longrightarrow> u \<in> states_of w \<Longrightarrow> store_ok (add_edge u symb v w)"
  by (auto simp: store_ok_def states_of_add_edge cur_id_add_edge edges_of_add_edge keys_setdefault_add)

lemma store_ok_allocated: "store_ok w \<Longrightarrow> store_ok (allocated w)"
  by (auto simp: store_ok_def states_of_allocated cur_id_allocated edges_of_allocated)

lemma store_ok_fresh: "store_ok w \<Longrightarrow> cur_id w < u \<Longrightarrow> u \<notin> states_of w"
  by (auto simp: store_ok_def)

lemma step_mono: "transitions w \<subseteq> transitions w' \<Longrightarrow> (step w)\<^sup>* \<subseteq> (step w')\<^sup>*"
  by (rule rtrancl_mono) (auto simp: step_def)

lemma frag_ok_extend:
  assumes "frag_ok w f" "states_of w \<subseteq> states_of w'" "transitions w \<subseteq> transitions w'"
    "edges_of w' (Fragment.accept f) = edges_of w (Fragment.accept f)"
  shows "frag_ok w' f"
  using assms step_mono [OF assms(3)] by (auto simp: frag_ok_def)

lemma add_edges_Nil: "add_edges [] w = w"
  by (simp add: add_edges_def)

lemma add_edges_Cons: "add_edges ((u, symb, v) # es) w = add_edges es (add_edge u symb v w)"
  by (simp add: add_edges_def)

lemma cur_id_add_edges: "cur_id (add_edges es w) = cur_id w"
  by (induction es arbitrary: w) (auto simp: add_edges_Nil add_edges_Cons cur_id_add_edge)

lemma states_of_add_edges: "states_of (add_edges es w) = states_of w \<union> fst ` set es"
  by (induction es arbitrary: w) (force simp: add_edges_Nil add_edges_Cons states_of_add_edge)+

lemma transitions_add_edges: "transitions (add_edges es w) = transitions w \<union> set es"
  by (induction es arbitrary: w) (auto simp: add_edges_Nil add_edges_Cons transitions_add_edge)

lemma edges_of_add_edges: "x \<notin> fst ` set es \<Longrightarrow> edges_of (add_edges es w) x = edges_of w x"
  by (induction es arbitrary: w) (auto simp: add_edges_Nil add_edges_Cons edges_of_add_edge)

lemma store_ok_add_edges: "store_ok w \<Longrightarrow> fst ` set es \<subseteq> states_of w \<Longrightarrow> store_ok (add_edges es w)"
proof (induction es arbitrary: w)
  case Nil
  then show ?case by (simp add: add_edges_Nil)
next
  case (Cons e es)
  obtain u symb v where e: "e = (u, symb, v)" by (cases e)
  from Cons.prems have "store_ok (add_edge u symb v w)"
    by (simp add: e store_ok_add_edge)
  moreover from Cons.prems have "fst ` set es \<subseteq> states_of (add_edge u symb v w)"
    by (auto simp: states_of_add_edge)
  ultimately show ?case by (simp add: e add_edges_Cons Cons.IH)
qed


text \<open>The two fresh states of a rule.\<close>

lemma allocated_twice:
  assumes "store_ok w" and s: "s = cur_id w + 1" and t: "t = cur_id w + 2"
  shows "store_ok (allocated (allocated w))"
    and "cur_id (allocated (allocated w)) = t"
    and "states_of (allocated (allocated w)) = states_of w \<union> {s, t}"
    and "transitions (allocated (allocated w)) = transitions w"
    and "\<And>x. x \<in> states_of w \<Longrightarrow> edges_of (allocated (allocated w)) x = edges_of w x"
    and "edges_of (allocated (allocated w)) t = []"
    and "s \<notin> states_of w" and "t \<notin> states_of w" and "s \<noteq> t"
proof -
  show f1: "s \<notin> states_of w" and f2: "t \<notin> states_of w"
    using assms by (simp_all add: store_ok_fresh)
  show "s \<noteq> t" by (simp add: s t)
  show "store_ok (allocated (allocated w))"
    by (simp add: assms store_ok_allocated)
  show "cur_id (allocated (allocated w)) = t"
    by (simp add: cur_id_allocated t)
  show "states_of (allocated (allocated w)) = states_of w \<union> {s, t}"
    by (auto simp: states_of_allocated cur_id_allocated s t)
  have "cur_id (allocated w) + 1 \<notin> states_of (allocated w)"
    using f2 by (simp add: cur_id_allocated states_of_allocated t)
  then show "transitions (allocated (allocated w)) = transitions w"
    using f1 by (simp add: transitions_allocated s)
  show "edges_of (allocated (allocated w)) x = edges_of w x" if "x \<in> states_of w" for x
    using that f1 f2 by (auto simp: edges_of_allocated cur_id_allocated s t)
  show "edges_of (allocated (allocated w)) t = []"
    by (simp add: edges_of_allocated cur_id_allocated t)
qed



text \<open>The builder's rules, with the store each produces.\<close>

lemma thompson_step_alt:
  "tok = ord CHR ''|'' \<Longrightarrow> s = cur_id w + 1 \<Longrightarrow> t = cur_id w + 2 \<Longrightarrow>
   thompson_step tok (b # a # stack1, w) =
     Inr (\<lparr>Fragment.start = s, accept = t\<rparr> # stack1,
          add_edges [(s, EPS, Fragment.start a), (s, EPS, Fragment.start b),
                     (Fragment.accept a, EPS, t), (Fragment.accept b, EPS, t)]
            (allocated (allocated w)))"
  by (simp add: thompson_step_def State_eq Let_def add_edges_def cur_id_allocated)

lemma thompson_step_concat:
  "tok = ord CHR ''.'' \<Longrightarrow>
   thompson_step tok (b # a # stack1, w) =
     Inr (\<lparr>Fragment.start = Fragment.start a, accept = Fragment.accept b\<rparr> # stack1,
          add_edges [(Fragment.accept a, EPS, Fragment.start b)] w)"
  by (simp add: thompson_step_def Let_def add_edges_def)

lemma thompson_step_star:
  "tok = ord CHR ''*'' \<Longrightarrow> s = cur_id w + 1 \<Longrightarrow> t = cur_id w + 2 \<Longrightarrow>
   thompson_step tok (a # stack1, w) =
     Inr (\<lparr>Fragment.start = s, accept = t\<rparr> # stack1,
          add_edges [(s, EPS, Fragment.start a), (s, EPS, t),
                     (Fragment.accept a, EPS, Fragment.start a), (Fragment.accept a, EPS, t)]
            (allocated (allocated w)))"
  by (simp add: thompson_step_def State_eq Let_def add_edges_def cur_id_allocated)

lemma thompson_step_plus:
  "tok = ord CHR ''+'' \<Longrightarrow> s = cur_id w + 1 \<Longrightarrow> t = cur_id w + 2 \<Longrightarrow>
   thompson_step tok (a # stack1, w) =
     Inr (\<lparr>Fragment.start = s, accept = t\<rparr> # stack1,
          add_edges [(s, EPS, Fragment.start a),
                     (Fragment.accept a, EPS, Fragment.start a), (Fragment.accept a, EPS, t)]
            (allocated (allocated w)))"
  by (simp add: thompson_step_def State_eq Let_def add_edges_def cur_id_allocated)

lemma thompson_step_opt:
  "tok = ord CHR ''?'' \<Longrightarrow> s = cur_id w + 1 \<Longrightarrow> t = cur_id w + 2 \<Longrightarrow>
   thompson_step tok (a # stack1, w) =
     Inr (\<lparr>Fragment.start = s, accept = t\<rparr> # stack1,
          add_edges [(s, EPS, Fragment.start a), (s, EPS, t), (Fragment.accept a, EPS, t)]
            (allocated (allocated w)))"
  by (simp add: thompson_step_def State_eq Let_def add_edges_def cur_id_allocated)

lemma thompson_step_symbol:
  "tok \<notin> {ord CHR ''|'', ord CHR ''.'', ord CHR ''*'', ord CHR ''+'', ord CHR ''?''} \<Longrightarrow>
   s = cur_id w + 1 \<Longrightarrow> t = cur_id w + 2 \<Longrightarrow>
   thompson_step tok (stack, w) =
     Inr (\<lparr>Fragment.start = s, accept = t\<rparr> # stack,
          add_edges [(s, tok, t)] (allocated (allocated w)))"
  by (simp add: thompson_step_def sym_frag_def State_eq Let_def add_edges_def cur_id_allocated)

lemma thompson_step_underflow:
  "tok = ord CHR ''*'' \<or> tok = ord CHR ''+'' \<or> tok = ord CHR ''?'' \<Longrightarrow>
   thompson_step tok ([], w) = Inl IndexError"
  by (auto simp: thompson_step_def)

lemma thompson_loop_append:
  "thompson_loop (p @ q) st =
     (case thompson_loop p st of Inl e \<Rightarrow> Inl e | Inr st1 \<Rightarrow> thompson_loop q st1)"
  by (induction p arbitrary: st) (auto split: sum.splits)


section \<open>The invariant is kept\<close>

lemma builder_inv_push:
  assumes ok: "store_ok w1"
    and rest: "\<forall>f\<in>set stack1. frag_ok w f" "distinct (map Fragment.accept stack1)"
    and ext: "states_of w \<subseteq> states_of w1" "transitions w \<subseteq> transitions w1"
      "\<And>x. x \<in> states_of w \<Longrightarrow> edges_of w1 x = edges_of w x"
    and src: "fst ` set es \<subseteq> states_of w1" "fst ` set es \<inter> Fragment.accept ` set stack1 = {}"
    and new: "Fragment.start f' \<in> states_of w1" "Fragment.accept f' \<in> states_of w1"
      "Fragment.accept f' \<notin> fst ` set es" "Fragment.accept f' \<notin> Fragment.accept ` set stack1"
      "edges_of w1 (Fragment.accept f') = []"
      "(Fragment.start f', Fragment.accept f') \<in> (step (add_edges es w1))\<^sup>*"
  shows "builder_inv (f' # stack1, add_edges es w1)"
proof -
  let ?w' = "add_edges es w1"
  have "store_ok ?w'"
    using ok src(1) by (rule store_ok_add_edges)
  moreover have "distinct (map Fragment.accept (f' # stack1))"
    using rest(2) new(4) by simp
  moreover have "frag_ok ?w' f'"
    using new by (simp add: frag_ok_def states_of_add_edges edges_of_add_edges)
  moreover have "frag_ok ?w' f" if f: "f \<in> set stack1" for f
  proof (rule frag_ok_extend)
    from f rest(1) show fo: "frag_ok w f" by simp
    show "states_of w \<subseteq> states_of ?w'"
      using ext(1) by (auto simp: states_of_add_edges)
    show "transitions w \<subseteq> transitions ?w'"
      using ext(2) by (auto simp: transitions_add_edges)
    from f src(2) have "Fragment.accept f \<notin> fst ` set es" by auto
    then have "edges_of ?w' (Fragment.accept f) = edges_of w1 (Fragment.accept f)"
      by (rule edges_of_add_edges)
    also from fo have "\<dots> = edges_of w (Fragment.accept f)"
      by (intro ext(3)) (simp add: frag_ok_def)
    finally show "edges_of ?w' (Fragment.accept f) = edges_of w (Fragment.accept f)" .
  qed
  ultimately show ?thesis
    by (simp add: builder_inv_def)
qed

lemma step_add_edges: "(u, symb, v) \<in> set es \<Longrightarrow> (u, v) \<in> (step (add_edges es w1))\<^sup>*"
  by (auto simp: step_def transitions_add_edges)

lemma reach_add_edges:
  "(x, y) \<in> (step w)\<^sup>* \<Longrightarrow> transitions w \<subseteq> transitions w1 \<Longrightarrow> (x, y) \<in> (step (add_edges es w1))\<^sup>*"
  using step_mono [of w "add_edges es w1"] by (auto simp: transitions_add_edges)

lemma builder_inv_fresh:
  assumes inv: "builder_inv (cs @ stack1, w)"
    and s: "s = cur_id w + 1" and t: "t = cur_id w + 2"
    and es: "fst ` set es \<subseteq> insert s (Fragment.accept ` set cs)"
    and reach: "(s, t) \<in> (step (add_edges es (allocated (allocated w))))\<^sup>*"
  shows "builder_inv (\<lparr>Fragment.start = s, accept = t\<rparr> # stack1,
           add_edges es (allocated (allocated w)))"
proof -
  from inv have ok: "store_ok w" and cs: "\<forall>f\<in>set cs. frag_ok w f"
    and rest: "\<forall>f\<in>set stack1. frag_ok w f" "distinct (map Fragment.accept stack1)"
    and cs_new: "Fragment.accept ` set cs \<inter> Fragment.accept ` set stack1 = {}"
    by (auto simp: builder_inv_def)
  note al = allocated_twice [OF ok s t]
  note f1 = al(7) and f2 = al(8) and st = al(9) and sts = al(3)
  have cs_in: "Fragment.accept ` set cs \<subseteq> states_of w"
    using cs by (auto simp: frag_ok_def)
  have acc_sub: "Fragment.accept ` set stack1 \<subseteq> states_of w"
    using rest(1) by (auto simp: frag_ok_def)
  have src: "x = s \<or> x \<in> Fragment.accept ` set cs" if "x \<in> fst ` set es" for x
    using that es by auto
  have s_new: "s \<notin> Fragment.accept ` set stack1"
    using f1 acc_sub by (meson subsetD)
  have t_new: "t \<notin> Fragment.accept ` set stack1"
    using f2 acc_sub by (meson subsetD)
  show ?thesis
  proof (rule builder_inv_push [where w = w])
    show "store_ok (allocated (allocated w))" by (rule al(1))
    show "\<forall>f\<in>set stack1. frag_ok w f" by (rule rest(1))
    show "distinct (map Fragment.accept stack1)" by (rule rest(2))
    show "states_of w \<subseteq> states_of (allocated (allocated w))" by (auto simp: sts)
    show "transitions w \<subseteq> transitions (allocated (allocated w))" by (simp add: al(4))
    show "edges_of (allocated (allocated w)) x = edges_of w x" if "x \<in> states_of w" for x
      using that by (rule al(5))
    show "fst ` set es \<subseteq> states_of (allocated (allocated w))"
    proof
      fix x
      assume "x \<in> fst ` set es"
      from src [OF this] cs_in show "x \<in> states_of (allocated (allocated w))"
        by (auto simp: sts)
    qed
    show "fst ` set es \<inter> Fragment.accept ` set stack1 = {}"
    proof (rule ccontr)
      assume "fst ` set es \<inter> Fragment.accept ` set stack1 \<noteq> {}"
      then obtain x where x: "x \<in> fst ` set es" and xa: "x \<in> Fragment.accept ` set stack1"
        by (meson disjoint_iff)
      from src [OF x] show False
      proof
        assume "x = s"
        with xa s_new show False by simp
      next
        assume "x \<in> Fragment.accept ` set cs"
        with xa cs_new show False by (meson disjoint_iff)
      qed
    qed
    show "Fragment.accept \<lparr>Fragment.start = s, accept = t\<rparr> \<notin> fst ` set es"
    proof
      assume "Fragment.accept \<lparr>Fragment.start = s, accept = t\<rparr> \<in> fst ` set es"
      then have "t \<in> fst ` set es" by simp
      from src [OF this] show False
      proof
        assume "t = s"
        with st show False by simp
      next
        assume "t \<in> Fragment.accept ` set cs"
        with f2 cs_in show False by (meson subsetD)
      qed
    qed
    show "Fragment.accept \<lparr>Fragment.start = s, accept = t\<rparr> \<notin> Fragment.accept ` set stack1"
      using t_new by simp
    show "edges_of (allocated (allocated w)) (Fragment.accept \<lparr>Fragment.start = s, accept = t\<rparr>) = []"
      using al(6) by simp
    show "Fragment.start \<lparr>Fragment.start = s, accept = t\<rparr> \<in> states_of (allocated (allocated w))"
      by (simp add: sts)
    show "Fragment.accept \<lparr>Fragment.start = s, accept = t\<rparr> \<in> states_of (allocated (allocated w))"
      by (simp add: sts)
    show "(Fragment.start \<lparr>Fragment.start = s, accept = t\<rparr>,
           Fragment.accept \<lparr>Fragment.start = s, accept = t\<rparr>)
          \<in> (step (add_edges es (allocated (allocated w))))\<^sup>*"
      using reach by simp
  qed
qed

lemma builder_inv_concat:
  assumes inv: "builder_inv (b # a # stack1, w)"
  shows "builder_inv (\<lparr>Fragment.start = Fragment.start a, accept = Fragment.accept b\<rparr> # stack1,
           add_edges [(Fragment.accept a, EPS, Fragment.start b)] w)"
proof -
  let ?es = "[(Fragment.accept a, EPS, Fragment.start b)]"
  from inv have ok: "store_ok w" and a: "frag_ok w a" and b: "frag_ok w b"
    and rest: "\<forall>f\<in>set stack1. frag_ok w f" "distinct (map Fragment.accept stack1)"
    and a_new: "Fragment.accept a \<notin> Fragment.accept ` set stack1"
    and b_new: "Fragment.accept b \<notin> Fragment.accept ` set stack1"
    and ab: "Fragment.accept b \<noteq> Fragment.accept a"
    by (auto simp: builder_inv_def)
  have "(Fragment.start a, Fragment.accept a) \<in> (step (add_edges ?es w))\<^sup>*"
    using a by (intro reach_add_edges [where w = w]) (simp_all add: frag_ok_def)
  moreover have "(Fragment.accept a, Fragment.start b) \<in> (step (add_edges ?es w))\<^sup>*"
    by (rule step_add_edges [where symb = EPS]) simp
  moreover have "(Fragment.start b, Fragment.accept b) \<in> (step (add_edges ?es w))\<^sup>*"
    using b by (intro reach_add_edges [where w = w]) (simp_all add: frag_ok_def)
  ultimately have reach: "(Fragment.start a, Fragment.accept b) \<in> (step (add_edges ?es w))\<^sup>*"
    by (meson rtrancl_trans)
  show ?thesis
  proof (rule builder_inv_push [where w = w])
    show "fst ` set ?es \<subseteq> states_of w"
      using a by (simp add: frag_ok_def)
    show "fst ` set ?es \<inter> Fragment.accept ` set stack1 = {}"
      using a_new by simp
    show "Fragment.accept \<lparr>Fragment.start = Fragment.start a, accept = Fragment.accept b\<rparr>
        \<notin> fst ` set ?es"
      using ab by simp
    show "Fragment.accept \<lparr>Fragment.start = Fragment.start a, accept = Fragment.accept b\<rparr>
        \<notin> Fragment.accept ` set stack1"
      using b_new by simp
    show "edges_of w (Fragment.accept \<lparr>Fragment.start = Fragment.start a,
        accept = Fragment.accept b\<rparr>) = []"
      using b by (simp add: frag_ok_def)
    show "Fragment.start \<lparr>Fragment.start = Fragment.start a, accept = Fragment.accept b\<rparr>
        \<in> states_of w"
      using a by (simp add: frag_ok_def)
    show "Fragment.accept \<lparr>Fragment.start = Fragment.start a, accept = Fragment.accept b\<rparr>
        \<in> states_of w"
      using b by (simp add: frag_ok_def)
    show "(Fragment.start \<lparr>Fragment.start = Fragment.start a, accept = Fragment.accept b\<rparr>,
           Fragment.accept \<lparr>Fragment.start = Fragment.start a, accept = Fragment.accept b\<rparr>)
          \<in> (step (add_edges ?es w))\<^sup>*"
      using reach by simp
  qed (use ok rest in simp_all)
qed

lemma thompson_step_inv:
  assumes inv: "builder_inv st" and step: "thompson_step tok st = Inr st1"
  shows "builder_inv st1"
proof -
  obtain stack w where st: "st = (stack, w)" by (cases st)
  from inv st have ok: "store_ok w" by (simp add: builder_inv_def)
  define s t where s: "s = cur_id w + 1" and t: "t = cur_id w + 2"
  note al = allocated_twice [OF ok s t]
  have old: "(x, y) \<in> (step (add_edges es (allocated (allocated w))))\<^sup>*"
    if "(x, y) \<in> (step w)\<^sup>*" for x y es
    using that by (rule reach_add_edges [where w = w]) (simp add: al(4))
  have fr: "(Fragment.start f, Fragment.accept f) \<in> (step w)\<^sup>*" if "f \<in> set stack" for f
    using that inv st by (auto simp: builder_inv_def frag_ok_def)
  consider
      (alt) "tok = ord CHR ''|''" | (concat) "tok = ord CHR ''.''" | (star) "tok = ord CHR ''*''"
    | (plus) "tok = ord CHR ''+''" | (opt) "tok = ord CHR ''?''"
    | (symbol) "tok \<notin> {ord CHR ''|'', ord CHR ''.'', ord CHR ''*'', ord CHR ''+'', ord CHR ''?''}"
    by blast
  then show ?thesis
  proof cases
    case alt
    with step st obtain b a stack1 where stack: "stack = b # a # stack1"
      by (cases stack rule: list.exhaust [case_product list.exhaust])
        (auto simp: thompson_step_def split: list.splits)
    let ?es = "[(s, EPS, Fragment.start a), (s, EPS, Fragment.start b),
                (Fragment.accept a, EPS, t), (Fragment.accept b, EPS, t)]"
    have "(s, Fragment.start a) \<in> (step (add_edges ?es (allocated (allocated w))))\<^sup>*"
      by (rule step_add_edges [where symb = EPS]) simp
    moreover have "(Fragment.start a, Fragment.accept a)
        \<in> (step (add_edges ?es (allocated (allocated w))))\<^sup>*"
      by (rule old) (simp add: fr stack)
    moreover have "(Fragment.accept a, t) \<in> (step (add_edges ?es (allocated (allocated w))))\<^sup>*"
      by (rule step_add_edges [where symb = EPS]) simp
    ultimately have "(s, t) \<in> (step (add_edges ?es (allocated (allocated w))))\<^sup>*"
      by (meson rtrancl_trans)
    then have "builder_inv (\<lparr>Fragment.start = s, accept = t\<rparr> # stack1,
        add_edges ?es (allocated (allocated w)))"
      using inv st stack by (intro builder_inv_fresh [where cs = "[b, a]"] s t) auto
    moreover from step st stack have "st1 = (\<lparr>Fragment.start = s, accept = t\<rparr> # stack1,
        add_edges ?es (allocated (allocated w)))"
      by (simp add: thompson_step_alt [OF alt s t])
    ultimately show ?thesis by simp
  next
    case concat
    with step st obtain b a stack1 where stack: "stack = b # a # stack1"
      by (cases stack rule: list.exhaust [case_product list.exhaust])
        (auto simp: thompson_step_def split: list.splits)
    from step st stack have "st1 = (\<lparr>Fragment.start = Fragment.start a, accept = Fragment.accept b\<rparr> # stack1,
        add_edges [(Fragment.accept a, EPS, Fragment.start b)] w)"
      by (simp add: thompson_step_concat [OF concat])
    with inv st stack show ?thesis
      by (simp add: builder_inv_concat)
  next
    case star
    with step st obtain a stack1 where stack: "stack = a # stack1"
      by (cases stack) (auto simp: thompson_step_def)
    let ?es = "[(s, EPS, Fragment.start a), (s, EPS, t),
                (Fragment.accept a, EPS, Fragment.start a), (Fragment.accept a, EPS, t)]"
    have "(s, t) \<in> (step (add_edges ?es (allocated (allocated w))))\<^sup>*"
      by (rule step_add_edges [where symb = EPS]) simp
    then have "builder_inv (\<lparr>Fragment.start = s, accept = t\<rparr> # stack1,
        add_edges ?es (allocated (allocated w)))"
      using inv st stack by (intro builder_inv_fresh [where cs = "[a]"] s t) auto
    moreover from step st stack have "st1 = (\<lparr>Fragment.start = s, accept = t\<rparr> # stack1,
        add_edges ?es (allocated (allocated w)))"
      by (simp add: thompson_step_star [OF star s t])
    ultimately show ?thesis by simp
  next
    case plus
    with step st obtain a stack1 where stack: "stack = a # stack1"
      by (cases stack) (auto simp: thompson_step_def)
    let ?es = "[(s, EPS, Fragment.start a),
                (Fragment.accept a, EPS, Fragment.start a), (Fragment.accept a, EPS, t)]"
    have "(s, Fragment.start a) \<in> (step (add_edges ?es (allocated (allocated w))))\<^sup>*"
      by (rule step_add_edges [where symb = EPS]) simp
    moreover have "(Fragment.start a, Fragment.accept a)
        \<in> (step (add_edges ?es (allocated (allocated w))))\<^sup>*"
      by (rule old) (simp add: fr stack)
    moreover have "(Fragment.accept a, t) \<in> (step (add_edges ?es (allocated (allocated w))))\<^sup>*"
      by (rule step_add_edges [where symb = EPS]) simp
    ultimately have "(s, t) \<in> (step (add_edges ?es (allocated (allocated w))))\<^sup>*"
      by (meson rtrancl_trans)
    then have "builder_inv (\<lparr>Fragment.start = s, accept = t\<rparr> # stack1,
        add_edges ?es (allocated (allocated w)))"
      using inv st stack by (intro builder_inv_fresh [where cs = "[a]"] s t) auto
    moreover from step st stack have "st1 = (\<lparr>Fragment.start = s, accept = t\<rparr> # stack1,
        add_edges ?es (allocated (allocated w)))"
      by (simp add: thompson_step_plus [OF plus s t])
    ultimately show ?thesis by simp
  next
    case opt
    with step st obtain a stack1 where stack: "stack = a # stack1"
      by (cases stack) (auto simp: thompson_step_def)
    let ?es = "[(s, EPS, Fragment.start a), (s, EPS, t), (Fragment.accept a, EPS, t)]"
    have "(s, t) \<in> (step (add_edges ?es (allocated (allocated w))))\<^sup>*"
      by (rule step_add_edges [where symb = EPS]) simp
    then have "builder_inv (\<lparr>Fragment.start = s, accept = t\<rparr> # stack1,
        add_edges ?es (allocated (allocated w)))"
      using inv st stack by (intro builder_inv_fresh [where cs = "[a]"] s t) auto
    moreover from step st stack have "st1 = (\<lparr>Fragment.start = s, accept = t\<rparr> # stack1,
        add_edges ?es (allocated (allocated w)))"
      by (simp add: thompson_step_opt [OF opt s t])
    ultimately show ?thesis by simp
  next
    case symbol
    let ?es = "[(s, tok, t)]"
    have "(s, t) \<in> (step (add_edges ?es (allocated (allocated w))))\<^sup>*"
      by (rule step_add_edges [where symb = tok]) simp
    then have "builder_inv (\<lparr>Fragment.start = s, accept = t\<rparr> # stack,
        add_edges ?es (allocated (allocated w)))"
      using inv st by (intro builder_inv_fresh [where cs = "[]"] s t) auto
    moreover from step st have "st1 = (\<lparr>Fragment.start = s, accept = t\<rparr> # stack,
        add_edges ?es (allocated (allocated w)))"
      by (simp add: thompson_step_symbol [OF symbol s t])
    ultimately show ?thesis by simp
  qed
qed

lemma thompson_loop_inv:
  "builder_inv st \<Longrightarrow> thompson_loop post st = Inr st1 \<Longrightarrow> builder_inv st1"
proof (induction post arbitrary: st)
  case Nil
  then show ?case by simp
next
  case (Cons tok post)
  from Cons.prems(2) obtain st2 where
    s1: "thompson_step tok st = Inr st2" and s2: "thompson_loop post st2 = Inr st1"
    by (auto split: sum.splits)
  from Cons.prems(1) s1 have "builder_inv st2" by (rule thompson_step_inv)
  from this s2 show ?case by (rule Cons.IH)
qed

lemma builder_inv_initial: "builder_inv ([], \<lparr>cur_id = n, mem = []\<rparr>)"
  by (simp add: builder_inv_def store_ok_def states_of_def edges_of_def)


section \<open>The depth-first traversal\<close>

lemma dfs_visited: "visited \<subseteq> dfs w us visited"
  by (induction w us visited rule: dfs.induct) auto

lemma dfs_roots: "set us \<subseteq> dfs w us visited"
proof (induction w us visited rule: dfs.induct)
  case (1 w visited)
  show ?case by simp
next
  case (2 w u us visited)
  show ?case
  proof (cases "u \<in> visited")
    case True
    with 2 dfs_visited [of visited w us] show ?thesis by auto
  next
    case False
    have "u \<in> dfs w (successors w u) (insert u visited)"
      using dfs_visited [of "insert u visited" w "successors w u"] by auto
    then have "u \<in> dfs w us (dfs w (successors w u) (insert u visited))"
      using dfs_visited [of "dfs w (successors w u) (insert u visited)" w us] by auto
    with False 2 show ?thesis by auto
  qed
qed

lemma dfs_sound: "dfs w us visited \<subseteq> visited \<union> (succ_rel w)\<^sup>* `` set us"
proof (induction w us visited rule: dfs.induct)
  case (1 w visited)
  show ?case by simp
next
  case (2 w u us visited)
  show ?case
  proof (cases "u \<in> visited")
    case True
    with 2 show ?thesis by auto
  next
    case False
    let ?D1 = "dfs w (successors w u) (insert u visited)"
    have "(succ_rel w)\<^sup>* `` set (successors w u) \<subseteq> (succ_rel w)\<^sup>* `` {u}"
      by (auto simp: succ_rel_def intro: converse_rtrancl_into_rtrancl)
    with "2.IH"(2) [OF False] have d1: "?D1 \<subseteq> visited \<union> (succ_rel w)\<^sup>* `` {u}"
      by auto
    from "2.IH"(3) [OF False] have "dfs w us ?D1 \<subseteq> ?D1 \<union> (succ_rel w)\<^sup>* `` set us" .
    with d1 False show ?thesis by auto
  qed
qed

lemma dfs_closed:
  "x \<in> dfs w us visited \<Longrightarrow> x \<notin> visited \<Longrightarrow> succ_rel w `` {x} \<subseteq> dfs w us visited"
proof (induction w us visited arbitrary: x rule: dfs.induct)
  case (1 w visited)
  then show ?case by simp
next
  case (2 w u us visited)
  show ?case
  proof (cases "u \<in> visited")
    case True
    with 2 show ?thesis by simp
  next
    case False
    let ?D1 = "dfs w (successors w u) (insert u visited)"
    let ?D = "dfs w us ?D1"
    from "2.prems" False have x: "x \<in> ?D" by simp
    have sub: "?D1 \<subseteq> ?D" by (rule dfs_visited)
    have "succ_rel w `` {x} \<subseteq> ?D"
    proof (cases "x \<in> ?D1")
      case outside: False
      from "2.IH"(3) [OF False x outside] show ?thesis .
    next
      case inside: True
      show ?thesis
      proof (cases "x = u")
        case True
        have "succ_rel w `` {u} = set (successors w u)"
          by (auto simp: succ_rel_def)
        also have "\<dots> \<subseteq> ?D1" by (rule dfs_roots)
        finally show ?thesis using sub True by auto
      next
        case False
        with "2.prems"(2) have "x \<notin> insert u visited" by simp
        from "2.IH"(2) [OF \<open>u \<notin> visited\<close> inside this] sub show ?thesis by auto
      qed
    qed
    with False show ?thesis by simp
  qed
qed

lemma dfs_reachable: "dfs w [u] {} = (succ_rel w)\<^sup>* `` {u}"
proof
  show "dfs w [u] {} \<subseteq> (succ_rel w)\<^sup>* `` {u}"
    using dfs_sound [of w "[u]" "{}"] by simp
  show "(succ_rel w)\<^sup>* `` {u} \<subseteq> dfs w [u] {}"
  proof
    fix v
    assume "v \<in> (succ_rel w)\<^sup>* `` {u}"
    then have "(u, v) \<in> (succ_rel w)\<^sup>*" by simp
    then show "v \<in> dfs w [u] {}"
    proof (induction rule: rtrancl_induct)
      case base
      show ?case using dfs_roots [of "[u]" w "{}"] by simp
    next
      case (step y z)
      from dfs_closed [OF step.IH] step.hyps(2) show ?case by auto
    qed
  qed
qed

lemma successors_step:
  assumes "distinct (map fst (edges_of w u))"
  shows "set (successors w u) = step w `` {u}"
proof
  show "set (successors w u) \<subseteq> step w `` {u}"
  proof
    fix v
    assume "v \<in> set (successors w u)"
    then obtain k vs where kv: "(k, vs) \<in> set (edges_of w u)" and v: "v \<in> set vs"
      by (auto simp: successors_def)
    from assms kv have "map_of (edges_of w u) k = Some vs"
      by (rule map_of_is_SomeI)
    with v have "v \<in> set (get_edges (edges_of w u) k)"
      by (simp add: get_edges_def)
    then show "v \<in> step w `` {u}"
      by (auto simp: step_def transitions_def)
  qed
  show "step w `` {u} \<subseteq> set (successors w u)"
    using get_edges_successors by (auto simp: step_def transitions_def)
qed

lemma succ_rel_step: "store_ok w \<Longrightarrow> succ_rel w = step w"
proof -
  assume "store_ok w"
  then have "set (successors w u) = step w `` {u}" for u
    by (intro successors_step) (simp add: store_ok_def)
  then show ?thesis
    by (auto simp: succ_rel_def)
qed

lemma thompson_from_postfix_result:
  assumes "thompson_from_postfix post w0 = Inr (nfa, w)"
  obtains frag where "thompson_loop post ([], w0) = Inr ([frag], w)"
    and "nfa = \<lparr>NFA.start = Fragment.start frag, accept = Fragment.accept frag,
                 states = dfs w [Fragment.start frag] {}\<rparr>"
proof -
  from assms obtain stack where loop: "thompson_loop post ([], w0) = Inr (stack, w)"
    and len: "length stack = 1"
    and nfa: "nfa = \<lparr>NFA.start = Fragment.start (hd stack), accept = Fragment.accept (hd stack),
                 states = dfs w [Fragment.start (hd stack)] {}\<rparr>"
    by (auto simp: thompson_from_postfix_def Let_def split: sum.splits if_splits)
  from len obtain frag where "stack = [frag]"
    by (cases stack) auto
  with loop nfa that show thesis by simp
qed


section \<open>The example runs\<close>

lemma example_a: "thompson_loop [97] ([], \<lparr>cur_id = 0, mem = []\<rparr>) = Inr ([frag_a], world_a)"
proof -
  have "thompson_step 97 ([], \<lparr>cur_id = 0, mem = []\<rparr>) =
      Inr ([\<lparr>Fragment.start = 1, accept = 2\<rparr>],
           add_edges [(1, 97, 2)] (allocated (allocated \<lparr>cur_id = 0, mem = []\<rparr>)))"
    by (rule thompson_step_symbol) simp_all
  moreover have "add_edges [(1, 97, 2)] (allocated (allocated \<lparr>cur_id = 0, mem = []\<rparr>)) = world_a"
    by (simp add: world_a_def add_edges_def add_edge_def allocated_def State_def setdefault_add_def
        get_edges_def edges_of_def)
  ultimately show ?thesis
    by (simp add: frag_a_def)
qed

lemma example_a_star:
  "thompson_loop [97, 42] ([], \<lparr>cur_id = 0, mem = []\<rparr>) =
     Inr ([\<lparr>Fragment.start = 3, accept = 4\<rparr>], world_a_star)"
proof -
  have "thompson_step 42 ([frag_a], world_a) =
      Inr ([\<lparr>Fragment.start = 3, accept = 4\<rparr>],
           add_edges [(3, EPS, Fragment.start frag_a), (3, EPS, 4),
                      (Fragment.accept frag_a, EPS, Fragment.start frag_a),
                      (Fragment.accept frag_a, EPS, 4)] (allocated (allocated world_a)))"
    by (rule thompson_step_star) (simp_all add: world_a_def)
  moreover have "add_edges [(3, EPS, Fragment.start frag_a), (3, EPS, 4),
                      (Fragment.accept frag_a, EPS, Fragment.start frag_a),
                      (Fragment.accept frag_a, EPS, 4)] (allocated (allocated world_a)) = world_a_star"
    by (simp add: world_a_def world_a_star_def frag_a_def add_edges_def add_edge_def allocated_def
        State_def setdefault_add_def get_edges_def edges_of_def)
  ultimately have "thompson_loop [42] ([frag_a], world_a) =
      Inr ([\<lparr>Fragment.start = 3, accept = 4\<rparr>], world_a_star)"
    by simp
  with example_a show ?thesis
    using thompson_loop_append [of "[97]" "[42]" "([], \<lparr>cur_id = 0, mem = []\<rparr>)"] by simp
qed

lemma postfix_a_star: "to_postfix (add_concat (remove_spaces (map ord ''a*''))) = Inr ([97] @ [ord CHR ''*''])"
  by (simp add: remove_spaces_def isspace_def add_concat_def add_concat_loop.simps is_symbol_def
      EPS_def to_postfix_def to_postfix_step_def PRECEDENCE_def RIGHT_ASSOC_def)

lemma compile_a_star: "compile_regex_to_nfa (map ord ''a*'') = Inr (nfa_a_star, world_a_star)"
proof -
  have "dfs world_a_star [3] {} = {1, 2, 3, 4}"
    by (simp add: world_a_star_def successors_def edges_of_def insert_commute)
  with postfix_a_star example_a_star show ?thesis
    by (simp add: compile_regex_to_nfa_def thompson_from_postfix_def nfa_a_star_def del: dfs.simps)
qed


section \<open>The state set of the automaton\<close>

text \<open>
  C2. For every regex on which \<open>compile_regex_to_nfa\<close> succeeds, the state set of the
  returned automaton is exactly the set of the states reachable from the start state by
  transitions of any label, and the accept state is one of them.
\<close>

theorem states_are_reachable:
  assumes "compile_regex_to_nfa regex = Inr (nfa, w)"
  shows "NFA.states nfa = {v. (NFA.start nfa, v) \<in> (step w)\<^sup>*}
         \<and> NFA.accept nfa \<in> NFA.states nfa"
proof -
  from assms obtain post where
    tfp: "thompson_from_postfix post \<lparr>cur_id = 0, mem = []\<rparr> = Inr (nfa, w)"
    by (auto simp: compile_regex_to_nfa_def Let_def split: sum.splits)
  then obtain frag where loop: "thompson_loop post ([], \<lparr>cur_id = 0, mem = []\<rparr>) = Inr ([frag], w)"
    and nfa: "nfa = \<lparr>NFA.start = Fragment.start frag, accept = Fragment.accept frag,
                 states = dfs w [Fragment.start frag] {}\<rparr>"
    by (rule thompson_from_postfix_result)
  from builder_inv_initial loop have inv: "builder_inv ([frag], w)"
    by (rule thompson_loop_inv)
  then have ok: "store_ok w" and frag: "frag_ok w frag"
    by (simp_all add: builder_inv_def)
  have st: "NFA.states nfa = (step w)\<^sup>* `` {NFA.start nfa}"
    by (simp del: dfs.simps add: nfa dfs_reachable succ_rel_step [OF ok])
  moreover from frag have "(NFA.start nfa, NFA.accept nfa) \<in> (step w)\<^sup>*"
    by (simp add: nfa frag_ok_def)
  ultimately show ?thesis by auto
qed

theorem states_are_reachable_witness:
  "compile_regex_to_nfa (map ord ''a*'') = Inr (nfa_a_star, world_a_star)
   \<and> NFA.states nfa_a_star = {v. (NFA.start nfa_a_star, v) \<in> (step world_a_star)\<^sup>*}
   \<and> NFA.accept nfa_a_star \<in> NFA.states nfa_a_star"
  by (rule conjI [OF compile_a_star states_are_reachable [OF compile_a_star]])


section \<open>The rules of the unary operators\<close>




section \<open>Unbalanced parentheses\<close>

lemma close_paren_loop_takeWhile:
  "close_paren_loop out stack =
     (out @ takeWhile (\<lambda>tp. tp \<noteq> ord CHR ''('') stack, dropWhile (\<lambda>tp. tp \<noteq> ord CHR ''('') stack)"
  by (induction stack arbitrary: out) auto

lemma close_paren_loop_empty:
  "snd (close_paren_loop out stack) = [] \<longleftrightarrow> ord CHR ''('' \<notin> set stack"
  by (auto simp: close_paren_loop_takeWhile dropWhile_eq_Nil_conv)

lemma to_postfix_step_fails:
  "to_postfix_step ch (out, stack) = Inl e \<longleftrightarrow>
     e = UnbalancedParentheses \<and> ch = ord CHR '')'' \<and> ord CHR ''('' \<notin> set stack"
proof (cases "ch = ord CHR '')''")
  case True
  have "\<not> is_symbol (ord CHR '')'')" "ord CHR '')'' \<noteq> EPS"
    by (simp_all add: is_symbol_def EPS_def)
  with True have "to_postfix_step ch (out, stack) =
      (case close_paren_loop out stack of
         (out1, []) \<Rightarrow> Inl UnbalancedParentheses
       | (out1, tp # stack1) \<Rightarrow> Inr (out1, stack1))"
    by (simp add: to_postfix_step_def)
  with True close_paren_loop_empty [of out stack] show ?thesis
    by (cases "close_paren_loop out stack") (auto split: list.splits)
next
  case False
  have "to_postfix_step ch (out, stack) \<noteq> Inl e"
  proof
    assume f: "to_postfix_step ch (out, stack) = Inl e"
    with False obtain c where "e = UnsupportedSymbol c"
      by (auto simp: to_postfix_step_def split: if_splits prod.splits)
    with f to_postfix_step_supported show False by blast
  qed
  with False show ?thesis by simp
qed

lemma to_postfix_loop_fails:
  "to_postfix_loop s st = Inl e \<longleftrightarrow>
     e = UnbalancedParentheses \<and>
     (\<exists>pre rest out stack. s = pre @ ord CHR '')'' # rest
        \<and> to_postfix_loop pre st = Inr (out, stack) \<and> ord CHR ''('' \<notin> set stack)"
proof (induction s arbitrary: st)
  case Nil
  show ?case by simp
next
  case (Cons ch s)
  obtain out0 stack0 where st: "st = (out0, stack0)" by (cases st)
  show ?case
  proof (cases "to_postfix_step ch st")
    case (Inl e')
    with st have e': "e' = UnbalancedParentheses" and ch: "ch = ord CHR '')''"
      and no: "ord CHR ''('' \<notin> set stack0"
      by (simp_all add: to_postfix_step_fails)
    have "\<exists>pre rest out stack. ch # s = pre @ ord CHR '')'' # rest
        \<and> to_postfix_loop pre st = Inr (out, stack) \<and> ord CHR ''('' \<notin> set stack"
    proof (intro exI conjI)
      show "ch # s = [] @ ord CHR '')'' # s" using ch by simp
      show "to_postfix_loop [] st = Inr (out0, stack0)" using st by simp
      show "ord CHR ''('' \<notin> set stack0" by (rule no)
    qed
    with Inl e' show ?thesis by auto
  next
    case (Inr st1)
    have "(\<exists>pre rest out stack. ch # s = pre @ ord CHR '')'' # rest
            \<and> to_postfix_loop pre st = Inr (out, stack) \<and> ord CHR ''('' \<notin> set stack)
        \<longleftrightarrow> (\<exists>pre rest out stack. s = pre @ ord CHR '')'' # rest
            \<and> to_postfix_loop pre st1 = Inr (out, stack) \<and> ord CHR ''('' \<notin> set stack)"
      (is "?L \<longleftrightarrow> ?R")
    proof
      assume ?L
      then obtain pre rest out stack where eq: "ch # s = pre @ ord CHR '')'' # rest"
        and run: "to_postfix_loop pre st = Inr (out, stack)" and no: "ord CHR ''('' \<notin> set stack"
        by blast
      show ?R
      proof (cases pre)
        case Nil
        with eq run no st have "to_postfix_step ch st = Inl UnbalancedParentheses"
          by (simp add: to_postfix_step_fails)
        with Inr show ?thesis by simp
      next
        case (Cons c pre')
        with eq have "c = ch" and "s = pre' @ ord CHR '')'' # rest" by simp_all
        moreover from run Cons \<open>c = ch\<close> Inr have "to_postfix_loop pre' st1 = Inr (out, stack)"
          by simp
        ultimately show ?thesis using no by blast
      qed
    next
      assume ?R
      then obtain pre rest out stack where eq: "s = pre @ ord CHR '')'' # rest"
        and run: "to_postfix_loop pre st1 = Inr (out, stack)" and no: "ord CHR ''('' \<notin> set stack"
        by blast
      show ?L
      proof (intro exI conjI)
        show "ch # s = (ch # pre) @ ord CHR '')'' # rest" using eq by simp
        show "to_postfix_loop (ch # pre) st = Inr (out, stack)" using run Inr by simp
        show "ord CHR ''('' \<notin> set stack" by (rule no)
      qed
    qed
    with Inr Cons.IH [of st1] show ?thesis by simp
  qed
qed

lemma drain_loop_fails:
  "drain_loop out stack = Inl e \<longleftrightarrow>
     e = UnbalancedParentheses \<and> (ord CHR ''('' \<in> set stack \<or> ord CHR '')'' \<in> set stack)"
  by (induction stack arbitrary: out) auto

lemma to_postfix_step_no_close:
  assumes "to_postfix_step ch (out, stack) = Inr (out1, stack1)" and "ord CHR '')'' \<notin> set stack"
  shows "ord CHR '')'' \<notin> set stack1"
proof -
  have sub1: "set (snd (close_paren_loop out stack)) \<subseteq> set stack"
    by (auto simp: close_paren_loop_takeWhile dest: set_dropWhileD)
  have sub2: "set (snd (operator_loop ch out stack)) \<subseteq> set stack"
    by (auto simp: operator_loop_takeWhile dest: set_dropWhileD)
  from assms(1) have "set stack1 \<subseteq> set stack \<union> {ch} \<and> (ch \<in> set stack1 \<longrightarrow> ch \<noteq> ord CHR '')'')
      \<or> set stack1 \<subseteq> set stack"
    using sub1 sub2
    by (auto simp: to_postfix_step_def split: if_splits prod.splits list.splits)
  with assms(2) show ?thesis by auto
qed

lemma to_postfix_loop_no_close:
  "to_postfix_loop s (out, stack) = Inr (out1, stack1) \<Longrightarrow> ord CHR '')'' \<notin> set stack \<Longrightarrow>
   ord CHR '')'' \<notin> set stack1"
proof (induction s arbitrary: out stack)
  case Nil
  then show ?case by simp
next
  case (Cons ch s)
  from Cons.prems(1) obtain out2 stack2 where
    s1: "to_postfix_step ch (out, stack) = Inr (out2, stack2)"
    and s2: "to_postfix_loop s (out2, stack2) = Inr (out1, stack1)"
    by (auto split: sum.splits)
  from s1 Cons.prems(2) have "ord CHR '')'' \<notin> set stack2"
    by (rule to_postfix_step_no_close)
  with s2 show ?case by (rule Cons.IH)
qed

lemma to_postfix_unbalanced:
  "to_postfix s = Inl UnbalancedParentheses \<longleftrightarrow>
     (\<exists>pre rest out stack. s = pre @ ord CHR '')'' # rest
        \<and> to_postfix_loop pre ([], []) = Inr (out, stack) \<and> ord CHR ''('' \<notin> set stack)
     \<or> (\<exists>out stack. to_postfix_loop s ([], []) = Inr (out, stack) \<and> ord CHR ''('' \<in> set stack)"
proof (cases "to_postfix_loop s ([], [])")
  case (Inl e)
  then have "to_postfix s = Inl e" by (simp add: to_postfix_def)
  with Inl to_postfix_loop_fails [of s "([], [])" e] show ?thesis by auto
next
  case (Inr st)
  obtain out stack where st: "st = (out, stack)" by (cases st)
  with Inr have no: "ord CHR '')'' \<notin> set stack"
    using to_postfix_loop_no_close [of s "[]" "[]" out stack] by simp
  from Inr st have "to_postfix s = drain_loop out stack" by (simp add: to_postfix_def)
  with no have lhs: "to_postfix s = Inl UnbalancedParentheses \<longleftrightarrow> ord CHR ''('' \<in> set stack"
    by (simp add: drain_loop_fails)
  from Inr to_postfix_loop_fails [of s "([], [])" UnbalancedParentheses]
  have first: "\<not> (\<exists>pre rest out stack. s = pre @ ord CHR '')'' # rest
        \<and> to_postfix_loop pre ([], []) = Inr (out, stack) \<and> ord CHR ''('' \<notin> set stack)"
    by simp
  from Inr st have second: "(\<exists>out stack. to_postfix_loop s ([], []) = Inr (out, stack)
        \<and> ord CHR ''('' \<in> set stack) \<longleftrightarrow> ord CHR ''('' \<in> set stack"
    by simp
  from lhs first second show ?thesis by blast
qed

text \<open>
  C7. \<open>compile_regex_to_nfa\<close> fails with \<open>UnbalancedParentheses\<close> exactly when, in the
  expanded regex, either a closing parenthesis is read (after a prefix that the
  converter's loop has processed) while the operator stack holds no opening
  parenthesis, or the loop consumes all of the input and leaves an opening parenthesis
  on the stack. The regex \<open>)a(\<close> fails so.
\<close>

theorem unbalanced_parentheses:
  "(compile_regex_to_nfa regex = Inl UnbalancedParentheses \<longleftrightarrow>
      (\<exists>pre rest out stack. add_concat (remove_spaces regex) = pre @ ord CHR '')'' # rest
          \<and> to_postfix_loop pre ([], []) = Inr (out, stack) \<and> ord CHR ''('' \<notin> set stack)
      \<or> (\<exists>out stack. to_postfix_loop (add_concat (remove_spaces regex)) ([], []) = Inr (out, stack)
          \<and> ord CHR ''('' \<in> set stack))
   \<and> compile_regex_to_nfa (map ord '')a('') = Inl UnbalancedParentheses"
proof -
  have "compile_regex_to_nfa r = Inl UnbalancedParentheses \<longleftrightarrow>
      to_postfix (add_concat (remove_spaces r)) = Inl UnbalancedParentheses" for r
    by (auto simp: compile_regex_to_nfa_def Let_def split: sum.splits
        dest: thompson_from_postfix_errors)
  moreover have "to_postfix (add_concat (remove_spaces (map ord '')a(''))) = Inl UnbalancedParentheses"
    by (simp add: remove_spaces_def isspace_def add_concat_def add_concat_loop.simps is_symbol_def
      EPS_def to_postfix_def to_postfix_step_def PRECEDENCE_def RIGHT_ASSOC_def)
  ultimately show ?thesis
    by (simp add: to_postfix_unbalanced)
qed

section \<open>The star and the empty word\<close>

text \<open>
  A group followed by a star: when the converter turns \<open>s\<close> into the postfix sequence
  \<open>p\<close>, it turns \<open>(s)*\<close> into \<open>p\<close> followed by the star. Under an opening parenthesis
  the converter's loop runs as it does on an empty stack.
\<close>

lemma takeWhile_stop: "\<not> P x \<Longrightarrow> takeWhile P (xs @ x # ys) = takeWhile P xs"
  by (induction xs) auto

lemma dropWhile_stop: "\<not> P x \<Longrightarrow> dropWhile P (xs @ x # ys) = dropWhile P xs @ x # ys"
  by (induction xs) auto














subsection \<open>Operators applied after the star\<close>









subsection \<open>The empty word and the postfix form\<close>

text \<open>
  The builder keeps the invariant \<open>null_inv\<close>, so the automaton accepts the empty word
  exactly when the postfix form matches it.
\<close>

subsubsection \<open>Paths in a relation that gets new edges\<close>




subsubsection \<open>Reachability in a store\<close>
























subsection \<open>Example runs with a star\<close>

















end
